theory Spec2Isabelle
  imports Main "HOL-Library.Word"
begin

section \<open>Data model of sud.c\<close>

text \<open>
  The C type \<open>int\<close> is a 32-bit two's complement integer: \<open>+\<close> wraps around and \<open>=\<close> compares
  bit patterns. Array indices (\<open>row\<close>, \<open>col\<close>, the loop counters) stay below 10 in every
  well-formed call and are natural numbers. A board \<open>int puzzle[9][9]\<close> is a list of nine rows
  of nine cells; every statement about a cell \<open>puzzle ! r ! c\<close> is meant for \<open>r < 9\<close> and
  \<open>c < 9\<close>, outside of which the C program reads or writes beyond the array.
\<close>

type_synonym cint = "32 word"
type_synonym board = "cint list list"

abbreviation (input) BOARDSIZE :: cint where "BOARDSIZE \<equiv> 81"
abbreviation (input) GRIDSIZE :: nat where "GRIDSIZE \<equiv> 9"
abbreviation (input) LENGTH_c :: nat where "LENGTH_c \<equiv> 3"

definition wf_board :: "board \<Rightarrow> bool" where
  "wf_board puzzle = (length puzzle = GRIDSIZE \<and> list_all (\<lambda>r. length r = GRIDSIZE) puzzle)"

definition no_empty_cell :: "board \<Rightarrow> bool" where
  "no_empty_cell puzzle = list_all (list_all (\<lambda>v. v \<noteq> 0)) puzzle"

definition set_cell :: "board \<Rightarrow> nat \<Rightarrow> nat \<Rightarrow> cint \<Rightarrow> board" where
  "set_cell puzzle row col v = puzzle[row := (puzzle ! row)[col := v]]"

section \<open>isValid (sud.c, lines 85-98)\<close>

text \<open>The \<open>for\<close> loop over \<open>i\<close>, with its three early returns in the order of the source.\<close>

function isValid_loop :: "cint \<Rightarrow> board \<Rightarrow> nat \<Rightarrow> nat \<Rightarrow> nat \<Rightarrow> bool" where
  "isValid_loop number puzzle row column i =
     (if i < GRIDSIZE then
        (if puzzle ! i ! column = number then False
         else if puzzle ! row ! i = number then False
         else if number = puzzle ! (row div LENGTH_c * LENGTH_c + i mod LENGTH_c)
                                 ! (column div LENGTH_c * LENGTH_c + i div LENGTH_c) then False
         else isValid_loop number puzzle row column (i + 1))
      else True)"
  by pat_completeness auto
termination
  by (relation "measure (\<lambda>(number, puzzle, row, column, i). GRIDSIZE - i)") auto

declare isValid_loop.simps [simp del]

definition isValid :: "cint \<Rightarrow> board \<Rightarrow> nat \<Rightarrow> nat \<Rightarrow> bool" where
  "isValid number puzzle row column = isValid_loop number puzzle row column 0"

section \<open>sudokuHelper (sud.c, lines 112-153)\<close>

text \<open>
  What one worker thread owns or observes while it searches: its private board, the number of
  times it has read the shared flag \<open>g_finished\<close> so far, and the number of read locks on
  \<open>lock\<close> that it has taken and not yet released. The other threads appear only through the
  values this thread reads from \<open>g_finished\<close>: the parameter \<open>g_finished\<close> below maps
  the index of a read to the value it returns. Waiting for a lock is not modelled; a call to
  \<open>pthread_rwlock_rdlock\<close> is counted when it returns.
\<close>

record thread_state =
  grid :: board
  nreads :: nat
  rdheld :: nat

text \<open>The runs in which no read of \<open>g_finished\<close> by this thread returns true.\<close>

definition latch_unset :: "(nat \<Rightarrow> bool) \<Rightarrow> bool" where
  "latch_unset g_finished = (\<forall>k. \<not> g_finished k)"

text \<open>Lines 125-130: the cursor moves one cell forward, column fastest, wrapping at 9.\<close>

definition advance :: "nat \<Rightarrow> nat \<Rightarrow> nat \<times> nat" where
  "advance row col =
     (let col = col + 1 in
      if GRIDSIZE = col then
        (let row = row + 1 in if GRIDSIZE = row then (0, 0) else (row, 0))
      else (row, col))"

text \<open>Lines 140-142: \<open>if (++startV == 10) startV = 1\<close>.\<close>

definition next_startV :: "cint \<Rightarrow> cint" where
  "next_startV startV = (let startV = startV + 1 in if startV = 10 then 1 else startV)"

text \<open>
  \<open>sudokuHelper\<close> is the function body up to the loop; \<open>candidates\<close> is the \<open>for\<close> loop of
  lines 139-148 at its head, with loop counter \<open>val\<close>, followed by lines 151-152 when the
  loop runs out. The result is the returned \<open>bool\<close> and the state at return.
\<close>

function sudokuHelper ::
    "(nat \<Rightarrow> bool) \<Rightarrow> thread_state \<Rightarrow> nat \<Rightarrow> nat \<Rightarrow> cint \<Rightarrow> cint \<Rightarrow> bool \<times> thread_state"
  and candidates ::
    "(nat \<Rightarrow> bool) \<Rightarrow> thread_state \<Rightarrow> nat \<Rightarrow> nat \<Rightarrow> cint \<Rightarrow> cint \<Rightarrow> nat \<Rightarrow> bool \<times> thread_state"
where
  "sudokuHelper g_finished s row col startV nTimes =
     (let s1 = s\<lparr>nreads := nreads s + 1, rdheld := rdheld s + 1\<rparr> in
      if g_finished (nreads s) then (True, s1)
      else
        (let s2 = s1\<lparr>rdheld := rdheld s1 - 1\<rparr> in
         if BOARDSIZE = nTimes then (True, s2)
         else
           (let (row, col) = advance row col in
            if 0 \<noteq> grid s2 ! row ! col then
              sudokuHelper g_finished s2 row col startV (nTimes + 1)
            else candidates g_finished s2 row col startV nTimes 1)))"
| "candidates g_finished s row col startV nTimes val =
     (if val \<le> GRIDSIZE then
        (let startV = next_startV startV in
         if isValid startV (grid s) row col then
           (let (r, s') = sudokuHelper g_finished
                            (s\<lparr>grid := set_cell (grid s) row col startV\<rparr>)
                            row col startV (nTimes + 1) in
            if r then (True, s')
            else candidates g_finished s' row col startV nTimes (val + 1))
         else candidates g_finished s row col startV nTimes (val + 1))
      else (False, s\<lparr>grid := set_cell (grid s) row col 0\<rparr>))"
  by pat_completeness auto

text \<open>
  Every recursive call raises \<open>nTimes\<close> by one or raises \<open>val\<close>, and the recursion stops
  at \<open>nTimes = 81\<close> and at \<open>val = 10\<close>: the function is total.
\<close>

termination
proof -
  have pred: "unat (w - 1) < unat w" if "w \<noteq> 0" for w :: cint
    using that by (simp add: unat_minus_one unat_gt_0)
  have dec: "unat (80 - n) < unat (81 - n)" if "n \<noteq> 81" for n :: cint
    using that pred [of "81 - n"] by simp
  show ?thesis
    apply (relation "measure (\<lambda>x. case x of
              Inl (g, s, row, col, startV, nTimes) \<Rightarrow> 12 * unat (81 - nTimes) + 11
            | Inr (g, s, row, col, startV, nTimes, val) \<Rightarrow>
                12 * unat (80 - nTimes) + 22 - val)")
        apply simp_all
     apply (drule dec, simp)
    apply (drule dec, arith)
    done
qed

declare sudokuHelper.simps [simp del] candidates.simps [simp del]

section \<open>Solvability\<close>

text \<open>
  Two distinct cells are peers when they share a row, a column or a 3x3 block. A digit is
  placed legally in a cell of a board when no peer of the cell holds the same value. A board
  \<open>p'\<close> completes a board \<open>p\<close> when it is a 9x9 board without empty cell that agrees with
  \<open>p\<close> on the non-zero cells of \<open>p\<close> and has a digit from 1 to 9, legally placed, in every
  cell that is empty in \<open>p\<close>. Nothing is required of the givens of \<open>p\<close> themselves: they are
  what the program is handed and never checks.
\<close>

definition peer :: "nat \<Rightarrow> nat \<Rightarrow> nat \<Rightarrow> nat \<Rightarrow> bool" where
  "peer r c r' c' =
     ((r', c') \<noteq> (r, c) \<and> (r' = r \<or> c' = c \<or> (r' div 3 = r div 3 \<and> c' div 3 = c div 3)))"

definition placed_legally :: "board \<Rightarrow> nat \<Rightarrow> nat \<Rightarrow> bool" where
  "placed_legally p r c = (\<forall>r'<9. \<forall>c'<9. peer r c r' c' \<longrightarrow> p ! r' ! c' \<noteq> p ! r ! c)"

definition completes :: "board \<Rightarrow> board \<Rightarrow> bool" where
  "completes p p' =
     (wf_board p' \<and>
      (\<forall>r<9. \<forall>c<9. p' ! r ! c \<noteq> 0 \<and>
         (p ! r ! c \<noteq> 0 \<longrightarrow> p' ! r ! c = p ! r ! c) \<and>
         (p ! r ! c = 0 \<longrightarrow> 1 \<le> p' ! r ! c \<and> p' ! r ! c \<le> 9 \<and> placed_legally p' r c)))"

text \<open>The cell reached from the cursor by \<open>k\<close> steps of \<open>advance\<close>.\<close>

definition cell_after :: "nat \<Rightarrow> nat \<times> nat \<Rightarrow> nat \<times> nat" where
  "cell_after k = ((\<lambda>(row, col). advance row col) ^^ k)"

text \<open>
  Two notions for the invariant of a successful search: the \<open>m\<close> cells after the cursor are
  all filled, and every cell that was empty in \<open>p\<close> and is filled in \<open>p'\<close> holds a digit from
  1 to 9 that is legally placed in \<open>p'\<close>.
\<close>

definition all_filled_after :: "board \<Rightarrow> nat \<times> nat \<Rightarrow> nat \<Rightarrow> bool" where
  "all_filled_after p cur m =
     (\<forall>k. 1 \<le> k \<and> k \<le> m \<longrightarrow> (case cell_after k cur of (r, c) \<Rightarrow> p ! r ! c \<noteq> 0))"

definition new_cells_legal :: "board \<Rightarrow> board \<Rightarrow> bool" where
  "new_cells_legal p p' =
     (\<forall>r<9. \<forall>c<9. p ! r ! c = 0 \<longrightarrow> p' ! r ! c \<noteq> 0 \<longrightarrow>
         1 \<le> p' ! r ! c \<and> p' ! r ! c \<le> 9 \<and> placed_legally p' r c)"

section \<open>Task construction in main (sud.c, lines 65-72 and 285-294)\<close>

text \<open>The structure \<open>boardz\<close>; the field names carry a suffix where they would clash.\<close>

record boardz =
  completed :: bool
  board_z :: board
  start_z :: cint
  row_z :: nat
  col_z :: nat

text \<open>
  The loop that fills \<open>p[0 .. thread_num - 1]\<close>. The library generator is a parameter: \<open>rand k\<close>
  is the value returned by the \<open>k\<close>-th call of \<open>rand()\<close> after \<open>srand(time(NULL))\<close>, counting
  from 0, and the argument \<open>k\<close> of the loop is the number of calls made so far. The expression
  \<open>(float)GRIDSIZE/thread_num * i\<close> is computed in floating point and converted to \<open>int\<close>;
  \<open>start_value thread_num i\<close> stands for its value.
\<close>

function init_tasks ::
    "(nat \<Rightarrow> nat) \<Rightarrow> (nat \<Rightarrow> nat \<Rightarrow> cint) \<Rightarrow> board \<Rightarrow> nat \<Rightarrow> nat \<Rightarrow> nat \<Rightarrow> boardz list" where
  "init_tasks rand start_value puzzle thread_num i k =
     (if i < thread_num then
        \<lparr>completed = False, board_z = puzzle, start_z = start_value thread_num i,
         row_z = rand k mod 9, col_z = rand (k + 1) mod 9\<rparr>
        # init_tasks rand start_value puzzle thread_num (i + 1) (k + 2)
      else [])"
  by pat_completeness auto
termination
  by (relation "measure (\<lambda>(rand, start_value, puzzle, thread_num, i, k). thread_num - i)") auto

declare init_tasks.simps [simp del]

section \<open>buffSudoku (sud.c, lines 221-236)\<close>











subsection \<open>The format of the message, and its reader\<close>








section \<open>The search with a history of its legality tests\<close>

text \<open>
  \<open>sudokuHelper\<close> and its loop once more, line for line, with one history variable added:
  \<open>seen\<close> lists, in the order of execution, the value that the current cell
  \<open>puzzle[row][col]\<close> holds each time the legality test of line 143 is about to be
  evaluated. The history is only written, never read: it does not change what the function
  returns or does to the state.
\<close>

function sudokuHelper_traced ::
    "(nat \<Rightarrow> bool) \<Rightarrow> thread_state \<Rightarrow> nat \<Rightarrow> nat \<Rightarrow> cint \<Rightarrow> cint \<Rightarrow> cint list \<Rightarrow>
     bool \<times> thread_state \<times> cint list"
  and candidates_traced ::
    "(nat \<Rightarrow> bool) \<Rightarrow> thread_state \<Rightarrow> nat \<Rightarrow> nat \<Rightarrow> cint \<Rightarrow> cint \<Rightarrow> nat \<Rightarrow> cint list \<Rightarrow>
     bool \<times> thread_state \<times> cint list"
where
  "sudokuHelper_traced g_finished s row col startV nTimes seen =
     (let s1 = s\<lparr>nreads := nreads s + 1, rdheld := rdheld s + 1\<rparr> in
      if g_finished (nreads s) then (True, s1, seen)
      else
        (let s2 = s1\<lparr>rdheld := rdheld s1 - 1\<rparr> in
         if BOARDSIZE = nTimes then (True, s2, seen)
         else
           (let (row, col) = advance row col in
            if 0 \<noteq> grid s2 ! row ! col then
              sudokuHelper_traced g_finished s2 row col startV (nTimes + 1) seen
            else candidates_traced g_finished s2 row col startV nTimes 1 seen)))"
| "candidates_traced g_finished s row col startV nTimes val seen =
     (if val \<le> GRIDSIZE then
        (let startV = next_startV startV;
             seen = seen @ [grid s ! row ! col] in
         if isValid startV (grid s) row col then
           (let (r, s', seen') = sudokuHelper_traced g_finished
                            (s\<lparr>grid := set_cell (grid s) row col startV\<rparr>)
                            row col startV (nTimes + 1) seen in
            if r then (True, s', seen')
            else candidates_traced g_finished s' row col startV nTimes (val + 1) seen')
         else candidates_traced g_finished s row col startV nTimes (val + 1) seen)
      else (False, s\<lparr>grid := set_cell (grid s) row col 0\<rparr>, seen))"
  by pat_completeness auto

termination
proof -
  have pred: "unat (w - 1) < unat w" if "w \<noteq> 0" for w :: cint
    using that by (simp add: unat_minus_one unat_gt_0)
  have dec: "unat (80 - n) < unat (81 - n)" if "n \<noteq> 81" for n :: cint
    using that pred [of "81 - n"] by simp
  show ?thesis
    apply (relation "measure (\<lambda>x. case x of
              Inl (g, s, row, col, startV, nTimes, seen) \<Rightarrow> 12 * unat (81 - nTimes) + 11
            | Inr (g, s, row, col, startV, nTimes, val, seen) \<Rightarrow>
                12 * unat (80 - nTimes) + 22 - val)")
        apply simp_all
     apply (drule dec, simp)
    apply (drule dec, arith)
    done
qed

declare sudokuHelper_traced.simps [simp del] candidates_traced.simps [simp del]

section \<open>The race between the workers (solveSudoku, lines 166-206, and main, lines 300-318)\<close>

text \<open>
  The threads of one run, as far as they touch the shared state: the flag \<open>g_finished\<close>, the
  reader/writer lock \<open>lock\<close> and the mutex. Worker \<open>t\<close> is at one of these places:
  \<^item> \<open>Searching\<close>: in \<open>sudokuHelper\<close>, holding no lock, before the next line 115 or before
    the return of the outermost call;
  \<^item> \<open>Probing\<close>: after \<open>pthread_rwlock_rdlock\<close> (line 115), before the test of line 117;
  \<^item> \<open>WantWrite\<close>: the search has returned, before \<open>pthread_rwlock_wrlock\<close> (line 176);
  \<^item> \<open>Holding\<close>: after line 176, before the test of line 179;
  \<^item> \<open>Winning\<close>: the test of line 179 found the flag clear, before \<open>pthread_mutex_lock\<close>;
  \<^item> \<open>InMutex\<close>: after line 180, before the assignments of lines 181-182;
  \<^item> \<open>Flagged\<close>: after \<open>g_finished = 1\<close>, before \<open>pthread_mutex_unlock\<close> (line 183);
  \<^item> \<open>Reporting\<close>: before the serialization and \<open>send\<close> (lines 187-197);
  \<^item> \<open>Reported\<close>: after \<open>send\<close>, before \<open>pthread_rwlock_unlock\<close> (line 199);
  \<^item> \<open>Signalling\<close>: before \<open>pthread_cond_signal\<close> (line 202);
  \<^item> \<open>Returned\<close>: after line 205.
  The supervisor is before line 308 (\<open>MStart\<close>), at the test of line 311 holding the mutex
  (\<open>MTest\<close>), inside \<open>pthread_cond_wait\<close> with the mutex released (\<open>MWaiting\<close>), or has
  left the loop and returned from \<open>main\<close>, which ends the process (\<open>MDone\<close>).
\<close>

datatype wpc =
  Searching | Probing | WantWrite | Holding | Winning | InMutex | Flagged | Reporting
  | Reported | Signalling | Returned

datatype mpc = MStart | MTest | MWaiting | MDone

datatype owner = Supervisor | Worker nat

text \<open>
  The shared state. Three logs record what the claim counts: \<open>winners\<close> the workers that found
  the flag clear at line 179, \<open>setters\<close> the workers whose assignment of line 182 changed the
  flag from false to true, \<open>reporters\<close> the workers that executed lines 187-197.
\<close>

record sys =
  flag :: bool
  wr_owner :: "nat option"
  rd_count :: "nat list"
  mtx :: "owner option"
  wpcs :: "wpc list"
  mpc :: mpc
  winners :: "nat list"
  setters :: "nat list"
  reporters :: "nat list"

definition init_sys :: "nat \<Rightarrow> sys" where
  "init_sys thread_num =
     \<lparr>flag = False, wr_owner = None, rd_count = replicate thread_num 0, mtx = None,
      wpcs = replicate thread_num Searching, mpc = MStart,
      winners = [], setters = [], reporters = []\<rparr>"

text \<open>
  One step of worker \<open>t\<close>; \<open>None\<close> when the worker cannot move (it waits for a lock, or has
  returned). A read lock is granted when no writer holds the lock, a write lock when nobody
  holds it. A worker that asks for the write lock while it holds a read lock itself either
  waits for ever or gets an error back and goes on without the lock (the code does not look
  at the result): the second branch of \<open>WantWrite\<close>. After the unlock of line 120 the search
  either goes on to another call (\<open>goes_on\<close>) or its outermost call returns.
\<close>

definition worker_step :: "sys \<Rightarrow> nat \<Rightarrow> bool \<Rightarrow> sys option" where
  "worker_step s t goes_on =
     (case wpcs s ! t of
        Searching \<Rightarrow>
          if wr_owner s = None
          then Some (s\<lparr>rd_count := (rd_count s)[t := rd_count s ! t + 1],
                       wpcs := (wpcs s)[t := Probing]\<rparr>)
          else None
      | Probing \<Rightarrow>
          if flag s then Some (s\<lparr>wpcs := (wpcs s)[t := WantWrite]\<rparr>)
          else Some (s\<lparr>rd_count := (rd_count s)[t := rd_count s ! t - 1],
                       wpcs := (wpcs s)[t := (if goes_on then Searching else WantWrite)]\<rparr>)
      | WantWrite \<Rightarrow>
          if wr_owner s = None \<and> list_all (\<lambda>n. n = 0) (rd_count s)
          then Some (s\<lparr>wr_owner := Some t, wpcs := (wpcs s)[t := Holding]\<rparr>)
          else if 0 < rd_count s ! t then Some (s\<lparr>wpcs := (wpcs s)[t := Holding]\<rparr>)
          else None
      | Holding \<Rightarrow>
          if flag s then Some (s\<lparr>wpcs := (wpcs s)[t := Returned]\<rparr>)
          else Some (s\<lparr>wpcs := (wpcs s)[t := Winning], winners := winners s @ [t]\<rparr>)
      | Winning \<Rightarrow>
          if mtx s = None
          then Some (s\<lparr>mtx := Some (Worker t), wpcs := (wpcs s)[t := InMutex]\<rparr>)
          else None
      | InMutex \<Rightarrow>
          Some (s\<lparr>flag := True,
                  setters := (if flag s then setters s else setters s @ [t]),
                  wpcs := (wpcs s)[t := Flagged]\<rparr>)
      | Flagged \<Rightarrow> Some (s\<lparr>mtx := None, wpcs := (wpcs s)[t := Reporting]\<rparr>)
      | Reporting \<Rightarrow>
          Some (s\<lparr>reporters := reporters s @ [t], wpcs := (wpcs s)[t := Reported]\<rparr>)
      | Reported \<Rightarrow> Some (s\<lparr>wr_owner := None, wpcs := (wpcs s)[t := Signalling]\<rparr>)
      | Signalling \<Rightarrow> Some (s\<lparr>wpcs := (wpcs s)[t := Returned]\<rparr>)
      | Returned \<Rightarrow> None)"

text \<open>
  One step of the supervisor. \<open>pthread_cond_wait\<close> may return at any time once the mutex is
  free, with or without a signal; the loop of line 311 tests the flag again.
\<close>

definition main_step :: "sys \<Rightarrow> sys option" where
  "main_step s =
     (case mpc s of
        MStart \<Rightarrow> if mtx s = None then Some (s\<lparr>mtx := Some Supervisor, mpc := MTest\<rparr>) else None
      | MTest \<Rightarrow>
          if flag s then Some (s\<lparr>mtx := None, mpc := MDone\<rparr>)
          else Some (s\<lparr>mtx := None, mpc := MWaiting\<rparr>)
      | MWaiting \<Rightarrow>
          if mtx s = None then Some (s\<lparr>mtx := Some Supervisor, mpc := MTest\<rparr>) else None
      | MDone \<Rightarrow> None)"

text \<open>
  A schedule names, step by step, the thread that moves. Nothing moves after \<open>main\<close> has
  returned. \<open>run_sched\<close> is the state after a schedule, \<open>None\<close> when the schedule asks a
  thread to move that cannot.
\<close>

datatype action = WorkerStep nat bool | MainStep

definition sys_step :: "sys \<Rightarrow> action \<Rightarrow> sys option" where
  "sys_step s a =
     (if mpc s = MDone then None
      else (case a of
              WorkerStep t goes_on \<Rightarrow> if t < length (wpcs s) then worker_step s t goes_on else None
            | MainStep \<Rightarrow> main_step s))"

fun run_sched :: "sys \<Rightarrow> action list \<Rightarrow> sys option" where
  "run_sched s [] = Some s"
| "run_sched s (a # as) = (case sys_step s a of None \<Rightarrow> None | Some s' \<Rightarrow> run_sched s' as)"

text \<open>
  The facts that hold in every state of every run with \<open>thread_num\<close> workers: before the
  flag is set no read lock is kept beyond the test; a worker between lines 179 and 199 holds
  the write lock and is the one logged winner; the logs follow the place of the winner.
\<close>

definition critical :: "wpc \<Rightarrow> bool" where
  "critical p = (p = Winning \<or> p = InMutex \<or> p = Flagged \<or> p = Reporting \<or> p = Reported)"

definition sizes_ok :: "nat \<Rightarrow> sys \<Rightarrow> bool" where
  "sizes_ok thread_num s = (length (wpcs s) = thread_num \<and> length (rd_count s) = thread_num)"

definition readers_ok :: "nat \<Rightarrow> sys \<Rightarrow> bool" where
  "readers_ok thread_num s =
     (\<not> flag s \<longrightarrow> (\<forall>t<thread_num. rd_count s ! t = (if wpcs s ! t = Probing then 1 else 0)))"

definition needs_lock :: "wpc \<Rightarrow> bool \<Rightarrow> bool" where
  "needs_lock p f = ((p = Holding \<and> \<not> f) \<or> critical p)"

definition holder_ok :: "nat \<Rightarrow> sys \<Rightarrow> bool" where
  "holder_ok thread_num s =
     (\<forall>t<thread_num. needs_lock (wpcs s ! t) (flag s) \<longrightarrow> wr_owner s = Some t)"

definition winner_ok :: "nat \<Rightarrow> sys \<Rightarrow> bool" where
  "winner_ok thread_num s = (\<forall>t<thread_num. critical (wpcs s ! t) \<longrightarrow> winners s = [t])"

definition phase_at :: "wpc \<Rightarrow> bool \<Rightarrow> nat list \<Rightarrow> nat \<Rightarrow> bool" where
  "phase_at p f rep t =
     ((p = Winning \<or> p = InMutex \<longrightarrow> \<not> f) \<and>
      (p = Flagged \<or> p = Reporting \<longrightarrow> f \<and> rep = []) \<and>
      (p = Reported \<longrightarrow> f \<and> rep = [t]))"

definition phase_ok :: "nat \<Rightarrow> sys \<Rightarrow> bool" where
  "phase_ok thread_num s =
     (\<forall>t<thread_num. phase_at (wpcs s ! t) (flag s) (reporters s) t)"

definition logs_ok :: "nat \<Rightarrow> sys \<Rightarrow> bool" where
  "logs_ok thread_num s =
     ((\<not> flag s \<longrightarrow> setters s = [] \<and> reporters s = [] \<and>
         (winners s = [] \<or>
          (\<exists>t<thread_num. winners s = [t] \<and> (wpcs s ! t = Winning \<or> wpcs s ! t = InMutex)))) \<and>
      (flag s \<longrightarrow> (\<exists>t. winners s = [t]) \<and> setters s = winners s \<and>
         (reporters s = [] \<or> reporters s = winners s)))"

definition exit_ok :: "sys \<Rightarrow> bool" where
  "exit_ok s = (mpc s = MDone \<longrightarrow> flag s)"

definition threads_ok :: "nat \<Rightarrow> sys \<Rightarrow> bool" where
  "threads_ok thread_num s =
     (sizes_ok thread_num s \<and> readers_ok thread_num s \<and> holder_ok thread_num s \<and>
      winner_ok thread_num s \<and> phase_ok thread_num s \<and> logs_ok thread_num s \<and> exit_ok s)"

text \<open>
  Further facts of every run, used to show that a run can always be completed: the mutex is
  held by the supervisor exactly while it tests the flag, and by a worker exactly between
  lines 180 and 183; and before the flag is set no worker has returned and the write lock, if
  taken, is held by a worker between lines 176 and 182.
\<close>

definition early :: "wpc \<Rightarrow> bool" where
  "early p = (p = Searching \<or> p = Probing \<or> p = WantWrite \<or> p = Holding \<or> p = Winning
              \<or> p = InMutex)"

definition in_mutex :: "wpc \<Rightarrow> bool" where
  "in_mutex p = (p = InMutex \<or> p = Flagged)"

definition writing :: "wpc \<Rightarrow> bool" where
  "writing p = (p = Holding \<or> p = Winning \<or> p = InMutex)"

definition mutex_ok :: "nat \<Rightarrow> sys \<Rightarrow> bool" where
  "mutex_ok thread_num s =
     (((mtx s = Some Supervisor) = (mpc s = MTest)) \<and>
      (\<forall>t. (mtx s = Some (Worker t)) = (t < thread_num \<and> in_mutex (wpcs s ! t))))"

definition early_ok :: "nat \<Rightarrow> sys \<Rightarrow> bool" where
  "early_ok thread_num s =
     (\<not> flag s \<longrightarrow>
        (\<forall>t<thread_num. early (wpcs s ! t)) \<and>
        (\<forall>t. wr_owner s = Some t \<longrightarrow> t < thread_num \<and> writing (wpcs s ! t)))"

definition race_inv :: "nat \<Rightarrow> sys \<Rightarrow> bool" where
  "race_inv thread_num s =
     (threads_ok thread_num s \<and> mutex_ok thread_num s \<and> early_ok thread_num s)"

text \<open>
  \<open>reach s s'\<close>: some schedule leads from \<open>s\<close> to \<open>s'\<close>. A worker is \<open>searching\<close> while it has
  not yet asked for the write lock, and \<open>unlocked\<close> when in addition it holds no read lock.
\<close>

definition reach :: "sys \<Rightarrow> sys \<Rightarrow> bool" where
  "reach s s' = (\<exists>sched. run_sched s sched = Some s')"

definition searching :: "wpc \<Rightarrow> bool" where
  "searching p = (p = Searching \<or> p = Probing \<or> p = WantWrite)"

definition unlocked :: "wpc \<Rightarrow> bool" where
  "unlocked p = (p = Searching \<or> p = WantWrite)"

section \<open>Concrete boards\<close>

text \<open>
  A board on which the search fails after one tentative assignment: cell (0,0) admits only the
  digit 1 (2 is in its block, 3 to 9 are in its row), and once 1 is there cell (0,1) admits
  no digit at all.
\<close>

definition dead_end_board :: board where
  "dead_end_board =
     [[0, 0, 3, 4, 5, 6, 7, 8, 9],
      [0, 2, 0, 0, 0, 0, 0, 0, 0],
      [0, 0, 0, 0, 0, 0, 0, 0, 0],
      [0, 0, 0, 0, 0, 0, 0, 0, 0],
      [0, 0, 0, 0, 0, 0, 0, 0, 0],
      [0, 0, 0, 0, 0, 0, 0, 0, 0],
      [0, 0, 0, 0, 0, 0, 0, 0, 0],
      [0, 0, 0, 0, 0, 0, 0, 0, 0],
      [0, 0, 0, 0, 0, 0, 0, 0, 0]]"

text \<open>A solved board, and the same board with cells (0,0) and (4,4) blanked.\<close>

definition solved_board :: board where
  "solved_board =
     [[5, 3, 4, 6, 7, 8, 9, 1, 2],
      [6, 7, 2, 1, 9, 5, 3, 4, 8],
      [1, 9, 8, 3, 4, 2, 5, 6, 7],
      [8, 5, 9, 7, 6, 1, 4, 2, 3],
      [4, 2, 6, 8, 5, 3, 7, 9, 1],
      [7, 1, 3, 9, 2, 4, 8, 5, 6],
      [9, 6, 1, 5, 3, 7, 2, 8, 4],
      [2, 8, 7, 4, 1, 9, 6, 3, 5],
      [3, 4, 5, 2, 8, 6, 1, 7, 9]]"

definition two_blank_board :: board where
  "two_blank_board = set_cell (set_cell solved_board 0 0 0) 4 4 0"

text \<open>The state of a worker that has not yet read the flag and holds no lock.\<close>

definition fresh_state :: "board \<Rightarrow> thread_state" where
  "fresh_state puzzle = \<lparr>grid = puzzle, nreads = 0, rdheld = 0\<rparr>"

text \<open>A board without completion: cell (0,0) is empty and its peers hold all of 1 to 9.\<close>

definition no_digit_board :: board where
  "no_digit_board =
     [[0, 1, 2, 3, 4, 5, 6, 7, 8],
      [9, 0, 0, 0, 0, 0, 0, 0, 0],
      [0, 0, 0, 0, 0, 0, 0, 0, 0],
      [0, 0, 0, 0, 0, 0, 0, 0, 0],
      [0, 0, 0, 0, 0, 0, 0, 0, 0],
      [0, 0, 0, 0, 0, 0, 0, 0, 0],
      [0, 0, 0, 0, 0, 0, 0, 0, 0],
      [0, 0, 0, 0, 0, 0, 0, 0, 0],
      [0, 0, 0, 0, 0, 0, 0, 0, 0]]"

text \<open>
  The first four values of the C library generator after \<open>srand(1)\<close> (glibc), then zeros, and
  the text of \<open>printf("%f", 1e100)\<close>, which has 108 characters.
\<close>

definition rand_seed1 :: "nat \<Rightarrow> nat" where
  "rand_seed1 k = (if k < 4 then [1804289383, 846930886, 1681692777, 1714636915] ! k else 0)"


text \<open>
  A run of two workers. In \<open>race_prefix\<close> worker 0 finishes its search, the supervisor tests
  the flag and waits, and worker 0 takes the write lock (state \<open>race_mid\<close>). In \<open>race_rest\<close>
  worker 0 sets the flag, reports and releases the lock, worker 1 enters another call of
  \<open>sudokuHelper\<close>, returns through line 118 and through line 179, worker 0 signals and the
  supervisor returns (state \<open>race_end\<close>).
\<close>

definition race_prefix :: "action list" where
  "race_prefix =
     [WorkerStep 0 False, WorkerStep 1 True, WorkerStep 1 True, WorkerStep 0 False,
      MainStep, MainStep, WorkerStep 0 False]"

definition race_rest :: "action list" where
  "race_rest =
     [WorkerStep 0 False, WorkerStep 0 False, WorkerStep 0 False, WorkerStep 0 False,
      WorkerStep 0 False, WorkerStep 0 False,
      WorkerStep 1 False, WorkerStep 1 False, WorkerStep 1 False, WorkerStep 1 False,
      WorkerStep 0 False, MainStep, MainStep]"

definition race_mid :: sys where
  "race_mid =
     \<lparr>flag = False, wr_owner = Some 0, rd_count = [0, 0], mtx = None,
      wpcs = [Holding, Searching], mpc = MWaiting, winners = [], setters = [], reporters = []\<rparr>"

definition race_end :: sys where
  "race_end =
     \<lparr>flag = True, wr_owner = None, rd_count = [0, 1], mtx = None,
      wpcs = [Returned, Returned], mpc = MDone, winners = [0], setters = [0],
      reporters = [0]\<rparr>"

section \<open>Properties of isValid\<close>

lemma isValid_loop_iff:
  "isValid_loop number puzzle row column i \<longleftrightarrow>
     (\<forall>j. i \<le> j \<and> j < 9 \<longrightarrow>
        puzzle ! j ! column \<noteq> number \<and> puzzle ! row ! j \<noteq> number \<and>
        puzzle ! (row div 3 * 3 + j mod 3) ! (column div 3 * 3 + j div 3) \<noteq> number)"
proof (induction number puzzle row column i rule: isValid_loop.induct)
  case (1 number puzzle row column i)
  show ?case
  proof (cases "i < 9")
    case False
    then show ?thesis by (subst isValid_loop.simps) auto
  next
    case True
    note lt = this
    show ?thesis
    proof (cases "puzzle ! i ! column = number \<or> puzzle ! row ! i = number \<or>
        number = puzzle ! (row div 3 * 3 + i mod 3) ! (column div 3 * 3 + i div 3)")
      case True
      then have "\<not> isValid_loop number puzzle row column i"
        using lt by (subst isValid_loop.simps) auto
      moreover have "\<not> (\<forall>j. i \<le> j \<and> j < 9 \<longrightarrow>
        puzzle ! j ! column \<noteq> number \<and> puzzle ! row ! j \<noteq> number \<and>
        puzzle ! (row div 3 * 3 + j mod 3) ! (column div 3 * 3 + j div 3) \<noteq> number)"
        using True lt by blast
      ultimately show ?thesis by blast
    next
      case False
      then have "isValid_loop number puzzle row column i = isValid_loop number puzzle row column (i + 1)"
        using lt by (subst isValid_loop.simps) auto
      also have "\<dots> \<longleftrightarrow> (\<forall>j. i + 1 \<le> j \<and> j < 9 \<longrightarrow>
        puzzle ! j ! column \<noteq> number \<and> puzzle ! row ! j \<noteq> number \<and>
        puzzle ! (row div 3 * 3 + j mod 3) ! (column div 3 * 3 + j div 3) \<noteq> number)"
        using "1.IH" False lt by simp
      also have "\<dots> \<longleftrightarrow> (\<forall>j. i \<le> j \<and> j < 9 \<longrightarrow>
        puzzle ! j ! column \<noteq> number \<and> puzzle ! row ! j \<noteq> number \<and>
        puzzle ! (row div 3 * 3 + j mod 3) ! (column div 3 * 3 + j div 3) \<noteq> number)"
        using False by (metis Suc_eq_plus1 Suc_leI le_neq_implies_less Suc_leD)
      finally show ?thesis .
    qed
  qed
qed

lemma block_index:
  assumes "r div 3 = row div 3" "c div 3 = column div 3"
  shows "\<exists>k<9. row div 3 * 3 + k mod 3 = r \<and> column div 3 * 3 + k div 3 = (c::nat)"
proof -
  let ?k = "r mod 3 + 3 * (c mod 3)"
  have "r mod 3 < 3" "c mod 3 < 3" by simp_all
  then have "?k < 9" by linarith
  moreover have "?k mod 3 = r mod 3" by simp
  moreover have "?k div 3 = c mod 3" by simp
  moreover have "row div 3 * 3 + r mod 3 = r" using assms(1) [symmetric] by simp
  moreover have "column div 3 * 3 + c mod 3 = c" using assms(2) [symmetric] by simp
  ultimately show ?thesis by metis
qed

lemma block_index_conv:
  "(row div 3 * 3 + k mod 3) div 3 = row div 3"
  "k < 9 \<Longrightarrow> (column div 3 * 3 + k div 3) div 3 = (column::nat) div 3"
   by simp_all

text \<open>
  Claim C1. For every board, candidate digit and target cell, \<open>isValid\<close> returns false
  exactly when the digit already occurs in the target's row, in its column, or in the 3x3
  block that contains the target; the block is the set of cells whose row and column have the
  same quotient by 3 as the target's.
\<close>

theorem isValid_false_iff:
  "isValid number puzzle row column = False \<longleftrightarrow>
     (\<exists>j<9. puzzle ! row ! j = number) \<or>
     (\<exists>i<9. puzzle ! i ! column = number) \<or>
     (\<exists>i j. i div 3 = row div 3 \<and> j div 3 = column div 3 \<and> puzzle ! i ! j = number)"
  (is "?L \<longleftrightarrow> ?R")
proof
  assume ?L
  then obtain j where j: "j < 9" and
    "puzzle ! j ! column = number \<or> puzzle ! row ! j = number \<or>
        puzzle ! (row div 3 * 3 + j mod 3) ! (column div 3 * 3 + j div 3) = number"
    unfolding isValid_def isValid_loop_iff by blast
  then show ?R using block_index_conv(1) [of row j] block_index_conv(2) [of j column] by blast
next
  assume ?R
  then consider (a) j where "j < 9" "puzzle ! row ! j = number"
    | (b) i where "i < 9" "puzzle ! i ! column = number"
    | (c) i j where "i div 3 = row div 3" "j div 3 = column div 3" "puzzle ! i ! j = number"
    by blast
  then show ?L
  proof cases
    case a then show ?thesis unfolding isValid_def isValid_loop_iff by auto
  next
    case b then show ?thesis unfolding isValid_def isValid_loop_iff by auto
  next
    case c
    from block_index [OF c(1,2)] obtain k where "k < 9"
      "row div 3 * 3 + k mod 3 = i" "column div 3 * 3 + k div 3 = j" by blast
    with c(3) show ?thesis unfolding isValid_def isValid_loop_iff by auto
  qed
qed

theorem isValid_false_iff_witness:
  "isValid 2 dead_end_board 0 0 = False \<and> dead_end_board ! 1 ! 1 = 2"
proof -
  have "\<exists>i j. i div 3 = (0::nat) div 3 \<and> j div 3 = (0::nat) div 3 \<and> dead_end_board ! i ! j = 2"
    by (rule exI [of _ 1], rule exI [of _ 1]) (simp add: dead_end_board_def)
  then have "isValid 2 dead_end_board 0 0 = False"
    using isValid_false_iff [of 2 dead_end_board 0 0] by blast
  then show ?thesis by (simp add: dead_end_board_def)
qed

section \<open>Unfolding and induction for the search\<close>

lemma set_cell_overwrite: "set_cell (set_cell p r c v) r c w = set_cell p r c w"
  by (cases "r < length p") (simp_all add: set_cell_def list_update_beyond)

lemma set_cell_same: "set_cell p r c (p ! r ! c) = p"
  by (simp add: set_cell_def)

lemma set_cell_other: "(r', c') \<noteq> (r, c) \<Longrightarrow> set_cell p r c v ! r' ! c' = p ! r' ! c'"
  by (cases "r < length p"; cases "r' = r") (auto simp: set_cell_def list_update_beyond)

lemma set_cell_at: "r < length p \<Longrightarrow> c < length (p ! r) \<Longrightarrow> set_cell p r c v ! r ! c = v"
  by (simp add: set_cell_def)

lemma wf_set_cell: "wf_board p \<Longrightarrow> wf_board (set_cell p r c v)"
  by (cases "r < length p") (auto simp: wf_board_def set_cell_def list_all_length nth_list_update)

lemma sudokuHelper_latched:
  "g (nreads s) \<Longrightarrow>
   sudokuHelper g s row col startV nTimes =
     (True, s\<lparr>nreads := nreads s + 1, rdheld := rdheld s + 1\<rparr>)"
  by (simp add: sudokuHelper.simps [of g s])

lemma sudokuHelper_depth81:
  "\<not> g (nreads s) \<Longrightarrow> sudokuHelper g s row col startV 81 = (True, s\<lparr>nreads := nreads s + 1\<rparr>)"
  by (simp add: sudokuHelper.simps [of g s])

lemma sudokuHelper_given:
  "\<not> g (nreads s) \<Longrightarrow> nTimes \<noteq> 81 \<Longrightarrow> advance row col = (r, c) \<Longrightarrow> grid s ! r ! c \<noteq> 0 \<Longrightarrow>
   sudokuHelper g s row col startV nTimes =
     sudokuHelper g (s\<lparr>nreads := nreads s + 1\<rparr>) r c startV (nTimes + 1)"
  by (simp add: sudokuHelper.simps [of g s])

lemma sudokuHelper_empty:
  "\<not> g (nreads s) \<Longrightarrow> nTimes \<noteq> 81 \<Longrightarrow> advance row col = (r, c) \<Longrightarrow> grid s ! r ! c = 0 \<Longrightarrow>
   sudokuHelper g s row col startV nTimes =
     candidates g (s\<lparr>nreads := nreads s + 1\<rparr>) r c startV nTimes 1"
  by (simp add: sudokuHelper.simps [of g s])

lemma candidates_end:
  "\<not> val \<le> 9 \<Longrightarrow>
   candidates g s row col startV nTimes val = (False, s\<lparr>grid := set_cell (grid s) row col 0\<rparr>)"
  by (simp add: candidates.simps [of g s row col startV nTimes val])

lemma candidates_illegal:
  "val \<le> 9 \<Longrightarrow> \<not> isValid (next_startV startV) (grid s) row col \<Longrightarrow>
   candidates g s row col startV nTimes val =
     candidates g s row col (next_startV startV) nTimes (val + 1)"
  by (simp add: candidates.simps [of g s row col startV nTimes val])

lemma candidates_legal:
  "val \<le> 9 \<Longrightarrow> isValid (next_startV startV) (grid s) row col \<Longrightarrow>
   sudokuHelper g (s\<lparr>grid := set_cell (grid s) row col (next_startV startV)\<rparr>)
     row col (next_startV startV) (nTimes + 1) = (b, s1) \<Longrightarrow>
   candidates g s row col startV nTimes val =
     (if b then (True, s1) else candidates g s1 row col (next_startV startV) nTimes (val + 1))"
  by (simp add: candidates.simps [of g s row col startV nTimes val])

lemma search_induct [case_names helper loop]:
  fixes P :: "(nat \<Rightarrow> bool) \<Rightarrow> thread_state \<Rightarrow> nat \<Rightarrow> nat \<Rightarrow> cint \<Rightarrow> cint \<Rightarrow> bool"
    and Q :: "(nat \<Rightarrow> bool) \<Rightarrow> thread_state \<Rightarrow> nat \<Rightarrow> nat \<Rightarrow> cint \<Rightarrow> cint \<Rightarrow> nat \<Rightarrow> bool"
  assumes H: "\<And>g s row col startV nTimes.
      (\<And>r c. \<not> g (nreads s) \<Longrightarrow> nTimes \<noteq> 81 \<Longrightarrow> advance row col = (r, c) \<Longrightarrow>
              grid s ! r ! c \<noteq> 0 \<Longrightarrow> P g (s\<lparr>nreads := nreads s + 1\<rparr>) r c startV (nTimes + 1)) \<Longrightarrow>
      (\<And>r c. \<not> g (nreads s) \<Longrightarrow> nTimes \<noteq> 81 \<Longrightarrow> advance row col = (r, c) \<Longrightarrow>
              grid s ! r ! c = 0 \<Longrightarrow> Q g (s\<lparr>nreads := nreads s + 1\<rparr>) r c startV nTimes 1) \<Longrightarrow>
      P g s row col startV nTimes"
    and L: "\<And>g s row col startV nTimes val.
      (val \<le> 9 \<Longrightarrow> isValid (next_startV startV) (grid s) row col \<Longrightarrow>
         P g (s\<lparr>grid := set_cell (grid s) row col (next_startV startV)\<rparr>)
           row col (next_startV startV) (nTimes + 1)) \<Longrightarrow>
      (\<And>s1. val \<le> 9 \<Longrightarrow> isValid (next_startV startV) (grid s) row col \<Longrightarrow>
         sudokuHelper g (s\<lparr>grid := set_cell (grid s) row col (next_startV startV)\<rparr>)
           row col (next_startV startV) (nTimes + 1) = (False, s1) \<Longrightarrow>
         Q g s1 row col (next_startV startV) nTimes (val + 1)) \<Longrightarrow>
      (val \<le> 9 \<Longrightarrow> \<not> isValid (next_startV startV) (grid s) row col \<Longrightarrow>
         Q g s row col (next_startV startV) nTimes (val + 1)) \<Longrightarrow>
      Q g s row col startV nTimes val"
  shows "P g s row col startV nTimes" and "Q g s row col startV nTimes val"
proof (induction g s row col startV nTimes and g s row col startV nTimes val
       rule: sudokuHelper_candidates.induct)
  case (1 g s row col startV nTimes)
  show ?case
  proof (rule H)
    fix r c
    assume a: "\<not> g (nreads s)" "nTimes \<noteq> 81" "advance row col = (r, c)" "grid s ! r ! c \<noteq> 0"
    from "1.IH"(1) [OF refl a(1) refl a(2) [symmetric] refl a(3) [symmetric]] a(4)
    show "P g (s\<lparr>nreads := nreads s + 1\<rparr>) r c startV (nTimes + 1)" by simp
  next
    fix r c
    assume a: "\<not> g (nreads s)" "nTimes \<noteq> 81" "advance row col = (r, c)" "grid s ! r ! c = 0"
    from "1.IH"(2) [OF refl a(1) refl a(2) [symmetric] refl a(3) [symmetric]] a(4)
    show "Q g (s\<lparr>nreads := nreads s + 1\<rparr>) r c startV nTimes 1" by simp
  qed
next
  case (2 g s row col startV nTimes val)
  show ?case
  proof (rule L)
    assume "val \<le> 9" "isValid (next_startV startV) (grid s) row col"
    then show "P g (s\<lparr>grid := set_cell (grid s) row col (next_startV startV)\<rparr>)
           row col (next_startV startV) (nTimes + 1)"
      using "2.IH"(1) by simp
  next
    fix s1
    assume a: "val \<le> 9" "isValid (next_startV startV) (grid s) row col"
      "sudokuHelper g (s\<lparr>grid := set_cell (grid s) row col (next_startV startV)\<rparr>)
           row col (next_startV startV) (nTimes + 1) = (False, s1)"
    from "2.IH"(2) [OF a(1) refl a(2) a(3) [symmetric] refl]
    show "Q g s1 row col (next_startV startV) nTimes (val + 1)" by simp
  next
    assume "val \<le> 9" "\<not> isValid (next_startV startV) (grid s) row col"
    then show "Q g s row col (next_startV startV) nTimes (val + 1)"
      using "2.IH"(3) by simp
  qed
qed

section \<open>Invariants of the search\<close>

lemma failure_grid:
  "\<forall>s'. sudokuHelper g s row col startV nTimes = (False, s') \<longrightarrow> grid s' = grid s"
  "\<forall>s'. candidates g s row col startV nTimes val = (False, s') \<longrightarrow>
        grid s' = set_cell (grid s) row col 0"
proof (induction g s row col startV nTimes and g s row col startV nTimes val rule: search_induct)
  case (helper g s row col startV nTimes)
  obtain r c where adv: "advance row col = (r, c)" by (cases "advance row col")
  show ?case
  proof (intro allI impI)
    fix s'
    assume res: "sudokuHelper g s row col startV nTimes = (False, s')"
    have ng: "\<not> g (nreads s)" using res sudokuHelper_latched [of g s] by auto
    have ne: "nTimes \<noteq> 81" using res ng sudokuHelper_depth81 [of g s] by auto
    show "grid s' = grid s"
    proof (cases "grid s ! r ! c = 0")
      case False
      from helper(1) [OF ng ne adv False] res sudokuHelper_given [of g s, OF ng ne adv False]
      show ?thesis by simp
    next
      case True
      from helper(2) [OF ng ne adv True] res sudokuHelper_empty [of g s, OF ng ne adv True]
      have "grid s' = set_cell (grid s) r c (grid s ! r ! c)" by (simp add: True)
      then show ?thesis by (simp add: set_cell_same)
    qed
  qed
next
  case (loop g s row col startV nTimes val)
  let ?v = "next_startV startV"
  show ?case
  proof (intro allI impI)
    fix s'
    assume res: "candidates g s row col startV nTimes val = (False, s')"
    show "grid s' = set_cell (grid s) row col 0"
    proof (cases "val \<le> 9")
      case False
      with res candidates_end [OF False, of g s row col startV nTimes] show ?thesis by auto
    next
      case le: True
      show ?thesis
      proof (cases "isValid ?v (grid s) row col")
        case False
        from loop(3) [OF le False] res candidates_illegal [OF le False, of g nTimes]
        show ?thesis by simp
      next
        case True
        obtain b s1 where rec: "sudokuHelper g (s\<lparr>grid := set_cell (grid s) row col ?v\<rparr>)
            row col ?v (nTimes + 1) = (b, s1)"
          by (cases "sudokuHelper g (s\<lparr>grid := set_cell (grid s) row col ?v\<rparr>) row col ?v (nTimes + 1)")
        from candidates_legal [OF le True rec] res have nb: "\<not> b"
          and next_loop: "candidates g s1 row col ?v nTimes (val + 1) = (False, s')"
          by (auto split: if_splits)
        from loop(1) [OF le True] rec nb have g1: "grid s1 = set_cell (grid s) row col ?v" by simp
        from loop(2) [OF le True, of s1] rec nb next_loop
        show ?thesis by (simp add: g1 set_cell_overwrite)
      qed
    qed
  qed
qed

lemma advance_in_range:
  "row < 9 \<Longrightarrow> col < 9 \<Longrightarrow> advance row col = (r, c) \<Longrightarrow> r < 9 \<and> c < 9"
  by (auto simp: advance_def Let_def split: if_splits)

lemma givens_kept:
  "\<forall>r' c'. grid s ! r' ! c' \<noteq> 0 \<longrightarrow>
      grid (snd (sudokuHelper g s row col startV nTimes)) ! r' ! c' = grid s ! r' ! c'"
  "\<forall>r' c'. (r', c') \<noteq> (row, col) \<longrightarrow> grid s ! r' ! c' \<noteq> 0 \<longrightarrow>
      grid (snd (candidates g s row col startV nTimes val)) ! r' ! c' = grid s ! r' ! c'"
proof (induction g s row col startV nTimes and g s row col startV nTimes val rule: search_induct)
  case (helper g s row col startV nTimes)
  obtain r c where adv: "advance row col = (r, c)" by (cases "advance row col")
  show ?case
  proof (cases "g (nreads s)")
    case True
    then show ?thesis by (simp add: sudokuHelper_latched)
  next
    case ng: False
    show ?thesis
    proof (cases "nTimes = 81")
      case True
      with ng show ?thesis by (simp add: sudokuHelper_depth81)
    next
      case ne: False
      show ?thesis
      proof (cases "grid s ! r ! c = 0")
        case False
        from helper(1) [OF ng ne adv False] sudokuHelper_given [of g s, OF ng ne adv False]
        show ?thesis by simp
      next
        case True
        have "(r', c') \<noteq> (r, c)" if "grid s ! r' ! c' \<noteq> 0" for r' c'
          using that True by auto
        with helper(2) [OF ng ne adv True] sudokuHelper_empty [of g s, OF ng ne adv True]
        show ?thesis by simp
      qed
    qed
  qed
next
  case (loop g s row col startV nTimes val)
  let ?v = "next_startV startV"
  show ?case
  proof (cases "val \<le> 9")
    case False
    then show ?thesis by (simp add: candidates_end set_cell_other)
  next
    case le: True
    show ?thesis
    proof (cases "isValid ?v (grid s) row col")
      case False
      from loop(3) [OF le False] candidates_illegal [OF le False, of g nTimes]
      show ?thesis by simp
    next
      case True
      obtain b s1 where rec: "sudokuHelper g (s\<lparr>grid := set_cell (grid s) row col ?v\<rparr>)
          row col ?v (nTimes + 1) = (b, s1)"
        by (cases "sudokuHelper g (s\<lparr>grid := set_cell (grid s) row col ?v\<rparr>) row col ?v (nTimes + 1)")
      have keep1: "grid s1 ! r' ! c' = grid s ! r' ! c'"
        if "(r', c') \<noteq> (row, col)" "grid s ! r' ! c' \<noteq> 0" for r' c'
        using loop(1) [OF le True] rec that by (simp add: set_cell_other)
      show ?thesis
      proof (cases b)
        case True
        with candidates_legal [OF le \<open>isValid ?v (grid s) row col\<close> rec] keep1
        show ?thesis by simp
      next
        case False
        with rec have "sudokuHelper g (s\<lparr>grid := set_cell (grid s) row col ?v\<rparr>)
          row col ?v (nTimes + 1) = (False, s1)" by simp
        from loop(2) [OF le True this] keep1
          candidates_legal [OF le True rec] False
        show ?thesis by simp
      qed
    qed
  qed
qed

lemma full_board_run:
  "latch_unset g \<longrightarrow> (\<forall>r<9. \<forall>c<9. grid s ! r ! c \<noteq> 0) \<longrightarrow> row < 9 \<longrightarrow> col < 9 \<longrightarrow>
     fst (sudokuHelper g s row col startV nTimes) \<and>
     grid (snd (sudokuHelper g s row col startV nTimes)) = grid s \<and>
     rdheld (snd (sudokuHelper g s row col startV nTimes)) = rdheld s"
proof (induction g s row col startV nTimes
       rule: search_induct(1) [where Q = "\<lambda>_ _ _ _ _ _ _. True"])
  case (helper g s row col startV nTimes)
  obtain r c where adv: "advance row col = (r, c)" by (cases "advance row col")
  show ?case
  proof (intro impI)
    assume ng: "latch_unset g" and full: "\<forall>r<9. \<forall>c<9. grid s ! r ! c \<noteq> 0"
      and rc: "row < 9" "col < 9"
    from ng have ng0: "\<not> g (nreads s)" by (simp add: latch_unset_def)
    show "fst (sudokuHelper g s row col startV nTimes) \<and>
     grid (snd (sudokuHelper g s row col startV nTimes)) = grid s \<and>
     rdheld (snd (sudokuHelper g s row col startV nTimes)) = rdheld s"
    proof (cases "nTimes = 81")
      case True
      with ng0 show ?thesis by (simp add: sudokuHelper_depth81)
    next
      case ne: False
      from advance_in_range [OF rc adv] have rc': "r < 9" "c < 9" by simp_all
      with full have nz: "grid s ! r ! c \<noteq> 0" by simp
      have full': "\<forall>r<9. \<forall>c<9. grid (s\<lparr>nreads := nreads s + 1\<rparr>) ! r ! c \<noteq> 0"
        using full by simp
      from helper(1) [OF ng0 ne adv nz] ng full' rc'
      have "fst (sudokuHelper g (s\<lparr>nreads := nreads s + 1\<rparr>) r c startV (nTimes + 1)) \<and>
        grid (snd (sudokuHelper g (s\<lparr>nreads := nreads s + 1\<rparr>) r c startV (nTimes + 1))) = grid s \<and>
        rdheld (snd (sudokuHelper g (s\<lparr>nreads := nreads s + 1\<rparr>) r c startV (nTimes + 1))) = rdheld s"
        by simp
      with sudokuHelper_given [of g s, OF ng0 ne adv nz]
      show ?thesis by simp
    qed
  qed
next
  case loop
  show ?case by simp
qed

lemma rdheld_balanced:
  "latch_unset g \<longrightarrow> rdheld (snd (sudokuHelper g s row col startV nTimes)) = rdheld s"
  "latch_unset g \<longrightarrow> rdheld (snd (candidates g s row col startV nTimes val)) = rdheld s"
proof (induction g s row col startV nTimes and g s row col startV nTimes val rule: search_induct)
  case (helper g s row col startV nTimes)
  obtain r c where adv: "advance row col = (r, c)" by (cases "advance row col")
  show ?case
  proof
    assume ng: "latch_unset g"
    then have ng0: "\<not> g (nreads s)" by (simp add: latch_unset_def)
    show "rdheld (snd (sudokuHelper g s row col startV nTimes)) = rdheld s"
    proof (cases "nTimes = 81")
      case True
      with ng0 show ?thesis by (simp add: sudokuHelper_depth81)
    next
      case ne: False
      show ?thesis
      proof (cases "grid s ! r ! c = 0")
        case False
        from helper(1) [OF ng0 ne adv False] ng
        have "rdheld (snd (sudokuHelper g (s\<lparr>nreads := nreads s + 1\<rparr>) r c startV (nTimes + 1))) = rdheld s"
          by simp
        with sudokuHelper_given [of g s, OF ng0 ne adv False]
        show ?thesis by simp
      next
        case True
        from helper(2) [OF ng0 ne adv True] ng
        have "rdheld (snd (candidates g (s\<lparr>nreads := nreads s + 1\<rparr>) r c startV nTimes 1)) = rdheld s"
          by simp
        with sudokuHelper_empty [of g s, OF ng0 ne adv True]
        show ?thesis by simp
      qed
    qed
  qed
next
  case (loop g s row col startV nTimes val)
  let ?v = "next_startV startV"
  show ?case
  proof
    assume ng: "latch_unset g"
    show "rdheld (snd (candidates g s row col startV nTimes val)) = rdheld s"
    proof (cases "val \<le> 9")
      case False
      then show ?thesis by (simp add: candidates_end)
    next
      case le: True
      show ?thesis
      proof (cases "isValid ?v (grid s) row col")
        case False
        from loop(3) [OF le False] ng
        have "rdheld (snd (candidates g s row col ?v nTimes (val + 1))) = rdheld s" by simp
        with candidates_illegal [OF le False, of g nTimes]
        show ?thesis by simp
      next
        case True
        obtain b s1 where rec: "sudokuHelper g (s\<lparr>grid := set_cell (grid s) row col ?v\<rparr>)
            row col ?v (nTimes + 1) = (b, s1)"
          by (cases "sudokuHelper g (s\<lparr>grid := set_cell (grid s) row col ?v\<rparr>) row col ?v (nTimes + 1)")
        from loop(1) [OF le True] ng
        have "rdheld (snd (sudokuHelper g (s\<lparr>grid := set_cell (grid s) row col ?v\<rparr>)
            row col ?v (nTimes + 1))) = rdheld (s\<lparr>grid := set_cell (grid s) row col ?v\<rparr>)" by simp
        with rec have h1: "rdheld s1 = rdheld s" by simp
        show ?thesis
        proof (cases b)
          case True
          with candidates_legal [OF le \<open>isValid ?v (grid s) row col\<close> rec] h1
          show ?thesis by simp
        next
          case False
          with rec have "sudokuHelper g (s\<lparr>grid := set_cell (grid s) row col ?v\<rparr>)
            row col ?v (nTimes + 1) = (False, s1)" by simp
          from loop(2) [OF le True this] ng
          have "rdheld (snd (candidates g s1 row col ?v nTimes (val + 1))) = rdheld s1" by simp
          with h1 candidates_legal [OF le True rec] False
          show ?thesis by simp
        qed
      qed
    qed
  qed
qed

section \<open>Soundness of a successful search\<close>

lemma isValid_row: "isValid v p r c \<Longrightarrow> c' < 9 \<Longrightarrow> p ! r ! c' \<noteq> v"
  unfolding isValid_def isValid_loop_iff by simp

lemma isValid_column: "isValid v p r c \<Longrightarrow> r' < 9 \<Longrightarrow> p ! r' ! c \<noteq> v"
  unfolding isValid_def isValid_loop_iff by simp

lemma isValid_block:
  assumes "isValid v p r c" "r' div 3 = r div 3" "c' div 3 = c div 3"
  shows "p ! r' ! c' \<noteq> v"
proof -
  from block_index [OF assms(2,3)] obtain k where "k < 9"
    "r div 3 * 3 + k mod 3 = r'" "c div 3 * 3 + k div 3 = c'" by blast
  with assms(1) show ?thesis unfolding isValid_def isValid_loop_iff by auto
qed

lemma isValid_peer:
  "isValid v p r c \<Longrightarrow> r' < 9 \<Longrightarrow> c' < 9 \<Longrightarrow> peer r c r' c' \<Longrightarrow> p ! r' ! c' \<noteq> v"
  using isValid_row [of v p r c c'] isValid_column [of v p r c r'] isValid_block [of v p r c r' c']
  by (auto simp: peer_def)

lemma peer_sym: "peer r c r' c' \<Longrightarrow> peer r' c' r c"
  by (auto simp: peer_def)

lemma word_le_9_cases:
  assumes "(w::cint) \<le> 9"
  shows "w \<in> {0, 1, 2, 3, 4, 5, 6, 7, 8, 9}"
proof -
  define n where "n = unat w"
  from assms have "n \<le> 9" by (simp add: word_le_nat_alt n_def)
  then have n: "n \<in> {9, 8, 7, 6, 5, 4, 3, 2, 1, 0}"
    by auto
  have w: "w = of_nat n" by (simp add: n_def)
  from n show ?thesis unfolding w by auto
qed

lemma next_startV_range:
  "startV \<le> 9 \<Longrightarrow> 1 \<le> next_startV startV \<and> next_startV startV \<le> 9"
  using word_le_9_cases [of startV] by (auto simp: next_startV_def Let_def)

lemma depth_of_nat_81: "of_nat n = (81::cint) \<Longrightarrow> n \<le> 81 \<Longrightarrow> n = 81"
  using of_nat_inverse [of n "81::cint"] by simp

lemma advance_index:
  "row < 9 \<Longrightarrow> col < 9 \<Longrightarrow> advance row col = (r, c) \<Longrightarrow>
   r < 9 \<and> c < 9 \<and> 9 * r + c = (9 * row + col + 1) mod 81"
  by (auto simp: advance_def Let_def split: if_splits)

lemma cell_after_0: "cell_after 0 cur = cur"
  by (simp add: cell_after_def)

lemma cell_after_1: "cell_after (Suc 0) (row, col) = advance row col"
  by (simp add: cell_after_def)

lemma cell_after_shift:
  "advance row col = (r, c) \<Longrightarrow> cell_after k (r, c) = cell_after (Suc k) (row, col)"
  by (simp add: cell_after_def funpow_swap1)

lemma cell_after_index:
  "row < 9 \<Longrightarrow> col < 9 \<Longrightarrow> cell_after k (row, col) = (r, c) \<Longrightarrow>
   r < 9 \<and> c < 9 \<and> 9 * r + c = (9 * row + col + k) mod 81"
proof (induction k arbitrary: r c)
  case 0
  then show ?case by (simp add: cell_after_def)
next
  case (Suc k)
  obtain r0 c0 where prev: "cell_after k (row, col) = (r0, c0)"
    by (cases "cell_after k (row, col)")
  from Suc.IH [OF Suc.prems(1,2) prev]
  have r0: "r0 < 9" "c0 < 9" and i0: "9 * r0 + c0 = (9 * row + col + k) mod 81" by simp_all
  from Suc.prems(3) prev have "advance r0 c0 = (r, c)" by (simp add: cell_after_def)
  from advance_index [OF r0 this]
  have "r < 9" "c < 9" and "9 * r + c = (9 * r0 + c0 + 1) mod 81" by simp_all
  with i0 show ?case by (simp add: mod_Suc_eq)
qed

lemma cell_after_covers:
  assumes "row < 9" "col < 9" "r < 9" "c < 9"
  shows "\<exists>k. 1 \<le> k \<and> k \<le> 81 \<and> cell_after k (row, col) = (r, c)"
proof -
  define i where "i = 9 * row + col"
  define j where "j = 9 * r + c"
  define k where "k = (if i < j then j - i else j + 81 - i)"
  have bounds: "i < 81" "j < 81" using assms by (simp_all add: i_def j_def)
  then have k: "1 \<le> k" "k \<le> 81" by (auto simp: k_def)
  have "(i + k) mod 81 = j"
  proof (cases "i < j")
    case True
    then show ?thesis using bounds by (simp add: k_def)
  next
    case False
    then have "i + k = j + 81" using bounds by (simp add: k_def)
    then show ?thesis using bounds by simp
  qed
  obtain r' c' where ca: "cell_after k (row, col) = (r', c')"
    by (cases "cell_after k (row, col)")
  from cell_after_index [OF assms(1,2) ca] \<open>(i + k) mod 81 = j\<close>
  have "r' < 9" "c' < 9" "9 * r' + c' = 9 * r + c" by (simp_all add: i_def j_def)
  with assms(3,4) have "r' = r" by linarith
  with \<open>9 * r' + c' = 9 * r + c\<close> have "c' = c" by simp
  note \<open>r' = r\<close> this
  with ca have "cell_after k (row, col) = (r, c)" by simp
  with k show ?thesis by (intro exI [of _ k]) simp
qed

lemma wf_board_nth: "wf_board p \<Longrightarrow> r < 9 \<Longrightarrow> r < length p \<and> length (p ! r) = 9"
  by (simp add: wf_board_def list_all_length)

lemma set_cell_at_wf: "wf_board p \<Longrightarrow> r < 9 \<Longrightarrow> c < 9 \<Longrightarrow> set_cell p r c v ! r ! c = v"
  using wf_board_nth [of p r] by (simp add: set_cell_at)

lemma all_filled_after_step:
  assumes adv: "advance row col = (r, c)"
    and here: "p ! r ! c \<noteq> 0"
    and rest: "all_filled_after p (r, c) m"
  shows "all_filled_after p (row, col) (Suc m)"
  unfolding all_filled_after_def
proof (intro allI impI)
  fix k assume k: "1 \<le> k \<and> k \<le> Suc m"
  show "case cell_after k (row, col) of (r, c) \<Rightarrow> p ! r ! c \<noteq> 0"
  proof (cases "k = 1")
    case True
    with adv here show ?thesis by (simp add: cell_after_1)
  next
    case False
    with k obtain k' where k': "k = Suc k'" "1 \<le> k'" "k' \<le> m"
      by (cases k) auto
    from rest k'(2,3) have "case cell_after k' (r, c) of (r, c) \<Rightarrow> p ! r ! c \<noteq> 0"
      by (simp add: all_filled_after_def)
    then show ?thesis by (simp add: k'(1) cell_after_shift [OF adv])
  qed
qed

lemma new_cells_legal_refl: "new_cells_legal p p"
  by (simp add: new_cells_legal_def)

lemma new_cells_legal_mono:
  "new_cells_legal p p' \<Longrightarrow> (\<And>r c. r < 9 \<Longrightarrow> c < 9 \<Longrightarrow> q ! r ! c = 0 \<Longrightarrow> p ! r ! c = 0) \<Longrightarrow>
   new_cells_legal q p'"
  by (simp add: new_cells_legal_def)

text \<open>Placing a legal digit and completing the rest legally keeps the placed digit legal.\<close>

lemma placed_stays_legal:
  assumes wf: "wf_board p" and rc: "row < 9" "col < 9"
    and legal: "isValid v p row col" and v: "v \<noteq> 0"
    and kept: "\<And>r c. set_cell p row col v ! r ! c \<noteq> 0 \<Longrightarrow> p' ! r ! c = set_cell p row col v ! r ! c"
    and new: "new_cells_legal (set_cell p row col v) p'"
  shows "placed_legally p' row col"
  unfolding placed_legally_def
proof (intro allI impI)
  fix r' c' assume r': "r' < 9" and c': "c' < 9" and pr: "peer row col r' c'"
  have here: "set_cell p row col v ! row ! col = v" by (rule set_cell_at_wf [OF wf rc])
  with kept [of row col] v have p'v: "p' ! row ! col = v" by simp
  from pr have ne: "(r', c') \<noteq> (row, col)" by (simp add: peer_def)
  then have same: "set_cell p row col v ! r' ! c' = p ! r' ! c'" by (rule set_cell_other)
  show "p' ! r' ! c' \<noteq> p' ! row ! col"
  proof (cases "p ! r' ! c' = 0")
    case False
    with kept [of r' c'] same have "p' ! r' ! c' = p ! r' ! c'" by simp
    with isValid_peer [OF legal r' c' pr] p'v show ?thesis by simp
  next
    case True
    show ?thesis
    proof (cases "p' ! r' ! c' = 0")
      case True
      with p'v v show ?thesis by simp
    next
      case False
      with new same True r' c' have "placed_legally p' r' c'"
        by (simp add: new_cells_legal_def)
      with rc peer_sym [OF pr] have "p' ! row ! col \<noteq> p' ! r' ! c'"
        by (simp add: placed_legally_def)
      then show ?thesis by simp
    qed
  qed
qed

lemma search_sound:
  "\<forall>n. latch_unset g \<longrightarrow> nTimes = of_nat n \<longrightarrow> n \<le> 81 \<longrightarrow> wf_board (grid s) \<longrightarrow>
       row < 9 \<longrightarrow> col < 9 \<longrightarrow> startV \<le> 9 \<longrightarrow>
       fst (sudokuHelper g s row col startV nTimes) \<longrightarrow>
       wf_board (grid (snd (sudokuHelper g s row col startV nTimes))) \<and>
       all_filled_after (grid (snd (sudokuHelper g s row col startV nTimes))) (row, col) (81 - n) \<and>
       new_cells_legal (grid s) (grid (snd (sudokuHelper g s row col startV nTimes)))"
  "\<forall>n. latch_unset g \<longrightarrow> nTimes = of_nat n \<longrightarrow> n < 81 \<longrightarrow> wf_board (grid s) \<longrightarrow>
       row < 9 \<longrightarrow> col < 9 \<longrightarrow> startV \<le> 9 \<longrightarrow>
       fst (candidates g s row col startV nTimes val) \<longrightarrow>
       wf_board (grid (snd (candidates g s row col startV nTimes val))) \<and>
       grid (snd (candidates g s row col startV nTimes val)) ! row ! col \<noteq> 0 \<and>
       all_filled_after (grid (snd (candidates g s row col startV nTimes val))) (row, col) (80 - n) \<and>
       new_cells_legal (set_cell (grid s) row col 0)
         (grid (snd (candidates g s row col startV nTimes val)))"
proof (induction g s row col startV nTimes and g s row col startV nTimes val rule: search_induct)
  case (helper g s row col startV nTimes)
  obtain r c where adv: "advance row col = (r, c)" by (cases "advance row col")
  let ?R = "sudokuHelper g s row col startV nTimes"
  let ?s = "s\<lparr>nreads := nreads s + 1\<rparr>"
  show ?case
  proof (intro allI impI)
    fix n
    assume lu: "latch_unset g" and n: "nTimes = of_nat n" "n \<le> 81"
      and wf: "wf_board (grid s)" and rc: "row < 9" "col < 9" and sv: "startV \<le> 9"
      and ok: "fst ?R"
    from lu have ng: "\<not> g (nreads s)" by (simp add: latch_unset_def)
    show "wf_board (grid (snd ?R)) \<and> all_filled_after (grid (snd ?R)) (row, col) (81 - n) \<and>
          new_cells_legal (grid s) (grid (snd ?R))"
    proof (cases "nTimes = 81")
      case True
      with n have "n = 81" using depth_of_nat_81 by simp
      with True ng wf show ?thesis
        by (simp add: sudokuHelper_depth81 all_filled_after_def new_cells_legal_refl)
    next
      case ne: False
      with n have n': "n < 81" by (cases "n = 81") simp_all
      from advance_in_range [OF rc adv] have rc': "r < 9" "c < 9" by simp_all
      have wf': "wf_board (grid ?s)" using wf by simp
      have m: "81 - n = Suc (80 - n)" using n' by simp
      show ?thesis
      proof (cases "grid s ! r ! c = 0")
        case False
        let ?R' = "sudokuHelper g ?s r c startV (nTimes + 1)"
        have eq: "?R = ?R'" by (rule sudokuHelper_given [of g s, OF ng ne adv False])
        have n1: "nTimes + 1 = of_nat (Suc n)" using n(1) by simp
        have le1: "Suc n \<le> 81" using n' by simp
        from ok eq have ok': "fst ?R'" by simp
        from helper(1) [OF ng ne adv False, rule_format, OF lu n1 le1 wf' rc' sv ok']
        have a: "wf_board (grid (snd ?R'))"
          and b: "all_filled_after (grid (snd ?R')) (r, c) (81 - Suc n)"
          and c: "new_cells_legal (grid ?s) (grid (snd ?R'))" by simp_all
        from givens_kept(1) [of ?s g r c startV "nTimes + 1", rule_format, of r c] False
        have "grid (snd ?R') ! r ! c \<noteq> 0" by simp
        from all_filled_after_step [OF adv this] b
        have "all_filled_after (grid (snd ?R')) (row, col) (81 - n)" by (simp add: m)
        with a c eq show ?thesis by simp
      next
        case True
        let ?R' = "candidates g ?s r c startV nTimes 1"
        have eq: "?R = ?R'" by (rule sudokuHelper_empty [of g s, OF ng ne adv True])
        from ok eq have ok': "fst ?R'" by simp
        from helper(2) [OF ng ne adv True, rule_format, OF lu n(1) n' wf' rc' sv ok']
        have a: "wf_board (grid (snd ?R'))"
          and h: "grid (snd ?R') ! r ! c \<noteq> 0"
          and b: "all_filled_after (grid (snd ?R')) (r, c) (80 - n)"
          and c: "new_cells_legal (set_cell (grid ?s) r c 0) (grid (snd ?R'))" by simp_all
        from all_filled_after_step [OF adv h b]
        have "all_filled_after (grid (snd ?R')) (row, col) (81 - n)" by (simp add: m)
        moreover have "set_cell (grid ?s) r c 0 = grid s"
          using set_cell_same [of "grid s" r c] True by simp
        ultimately show ?thesis using a c eq by simp
      qed
    qed
  qed
next
  case (loop g s row col startV nTimes val)
  let ?v = "next_startV startV"
  let ?R = "candidates g s row col startV nTimes val"
  let ?sv = "s\<lparr>grid := set_cell (grid s) row col ?v\<rparr>"
  show ?case
  proof (intro allI impI)
    fix n
    assume lu: "latch_unset g" and n: "nTimes = of_nat n" "n < 81"
      and wf: "wf_board (grid s)" and rc: "row < 9" "col < 9" and sv: "startV \<le> 9"
      and ok: "fst ?R"
    have le: "val \<le> 9"
    proof (rule ccontr)
      assume "\<not> val \<le> 9"
      from candidates_end [OF this, of g s row col startV nTimes] ok show False by simp
    qed
    from next_startV_range [OF sv] have v: "1 \<le> ?v" "?v \<le> 9" by simp_all
    then have v0: "?v \<noteq> 0" by auto
    show "wf_board (grid (snd ?R)) \<and> grid (snd ?R) ! row ! col \<noteq> 0 \<and>
          all_filled_after (grid (snd ?R)) (row, col) (80 - n) \<and>
          new_cells_legal (set_cell (grid s) row col 0) (grid (snd ?R))"
    proof (cases "isValid ?v (grid s) row col")
      case False
      have eq: "?R = candidates g s row col ?v nTimes (val + 1)"
        by (rule candidates_illegal [OF le False])
      from loop(3) [OF le False, rule_format, OF lu n wf rc v(2)] ok eq
      show ?thesis by simp
    next
      case legal: True
      obtain b s1 where rec: "sudokuHelper g ?sv row col ?v (nTimes + 1) = (b, s1)"
        by (cases "sudokuHelper g ?sv row col ?v (nTimes + 1)")
      have wfv: "wf_board (grid ?sv)" using wf by (simp add: wf_set_cell)
      show ?thesis
      proof (cases b)
        case True
        with candidates_legal [OF le legal rec] have eq: "?R = (True, s1)" by simp
        have n1: "nTimes + 1 = of_nat (Suc n)" using n(1) by simp
        have le1: "Suc n \<le> 81" using n(2) by simp
        from loop(1) [OF le legal, rule_format, OF lu n1 le1 wfv rc v(2)] rec True
        have a: "wf_board (grid s1)"
          and f: "all_filled_after (grid s1) (row, col) (81 - Suc n)"
          and c: "new_cells_legal (set_cell (grid s) row col ?v) (grid s1)" by simp_all
        have kept: "grid s1 ! r ! c = set_cell (grid s) row col ?v ! r ! c"
          if "set_cell (grid s) row col ?v ! r ! c \<noteq> 0" for r c
          using givens_kept(1) [of ?sv g row col ?v "nTimes + 1", rule_format, of r c] that rec
          by simp
        have here: "grid s1 ! row ! col = ?v"
          using kept [of row col] set_cell_at_wf [OF wf rc, of ?v] v0 by simp
        have pl: "placed_legally (grid s1) row col"
          by (rule placed_stays_legal [OF wf rc legal v0 kept c])
        have "new_cells_legal (set_cell (grid s) row col 0) (grid s1)"
          unfolding new_cells_legal_def
        proof (intro allI impI)
          fix r c assume r: "r < 9" and c': "c < 9"
            and z: "set_cell (grid s) row col 0 ! r ! c = 0" and nz: "grid s1 ! r ! c \<noteq> 0"
          show "1 \<le> grid s1 ! r ! c \<and> grid s1 ! r ! c \<le> 9 \<and> placed_legally (grid s1) r c"
          proof (cases "(r, c) = (row, col)")
            case True
            with here v pl show ?thesis by simp
          next
            case False
            with z have "set_cell (grid s) row col ?v ! r ! c = 0"
              by (simp add: set_cell_other)
            with c r c' nz show ?thesis by (simp add: new_cells_legal_def)
          qed
        qed
        with a f here v0 eq show ?thesis by simp
      next
        case False
        with rec have rec': "sudokuHelper g ?sv row col ?v (nTimes + 1) = (False, s1)" by simp
        from candidates_legal [OF le legal rec] False
        have eq: "?R = candidates g s1 row col ?v nTimes (val + 1)" by simp
        from failure_grid(1) [rule_format, OF rec']
        have g1: "grid s1 = set_cell (grid s) row col ?v" by simp
        then have wf1: "wf_board (grid s1)" using wf by (simp add: wf_set_cell)
        from loop(2) [OF le legal rec', rule_format, OF lu n wf1 rc v(2)] ok eq
        show ?thesis by (simp add: g1 set_cell_overwrite)
      qed
    qed
  qed
qed

lemma success_completes:
  assumes lu: "latch_unset g" and wf: "wf_board (grid s)" and rc: "row < 9" "col < 9"
    and sv: "startV \<le> 9" and ok: "fst (sudokuHelper g s row col startV 0)"
  shows "completes (grid s) (grid (snd (sudokuHelper g s row col startV 0)))"
proof -
  let ?p' = "grid (snd (sudokuHelper g s row col startV 0))"
  have z: "(0::cint) = of_nat 0" by simp
  from search_sound(1) [rule_format, OF lu z _ wf rc sv ok]
  have a: "wf_board ?p'" and f: "all_filled_after ?p' (row, col) 81"
    and l: "new_cells_legal (grid s) ?p'" by simp_all
  have filled: "?p' ! r ! c \<noteq> 0" if "r < 9" "c < 9" for r c
  proof -
    from cell_after_covers [OF rc that] obtain k where
      "1 \<le> k" "k \<le> 81" "cell_after k (row, col) = (r, c)" by blast
    with f show ?thesis by (auto simp: all_filled_after_def)
  qed
  have kept: "?p' ! r ! c = grid s ! r ! c" if "grid s ! r ! c \<noteq> 0" for r c
    using givens_kept(1) [of s g row col startV 0, rule_format, OF that] .
  show ?thesis
    unfolding completes_def
  proof (intro conjI allI impI)
    show "wf_board ?p'" by (rule a)
  next
    fix r c :: nat assume "r < 9" "c < 9"
    then show "?p' ! r ! c \<noteq> 0" by (rule filled)
  next
    fix r c :: nat assume "grid s ! r ! c \<noteq> 0"
    then show "?p' ! r ! c = grid s ! r ! c" by (rule kept)
  next
    fix r c :: nat assume "r < 9" "c < 9" "grid s ! r ! c = 0"
    with l filled [of r c] show "1 \<le> ?p' ! r ! c" by (simp add: new_cells_legal_def)
  next
    fix r c :: nat assume "r < 9" "c < 9" "grid s ! r ! c = 0"
    with l filled [of r c] show "?p' ! r ! c \<le> 9" by (simp add: new_cells_legal_def)
  next
    fix r c :: nat assume "r < 9" "c < 9" "grid s ! r ! c = 0"
    with l filled [of r c] show "placed_legally ?p' r c" by (simp add: new_cells_legal_def)
  qed
qed

lemma word_1_to_9_cases:
  assumes "1 \<le> (w::cint)" "w \<le> 9"
  shows "w \<in> {1, 2, 3, 4, 5, 6, 7, 8, 9}"
  using word_le_9_cases [OF assms(2)] assms(1) by auto

lemma no_digit_board_unsolvable: "\<not> (\<exists>p'. completes no_digit_board p')"
proof
  assume "\<exists>p'. completes no_digit_board p'"
  then obtain p' where c: "completes no_digit_board p'" ..
  have given: "p' ! r ! c = no_digit_board ! r ! c"
    if "r < 9" "c < 9" "no_digit_board ! r ! c \<noteq> 0" for r c
    using c that by (simp add: completes_def)
  from c have "1 \<le> p' ! 0 ! 0" "p' ! 0 ! 0 \<le> 9" and pl: "placed_legally p' 0 0"
    by (simp_all add: completes_def no_digit_board_def)
  from word_1_to_9_cases [OF this(1,2)]
  have v: "p' ! 0 ! 0 \<in> {1, 2, 3, 4, 5, 6, 7, 8, 9}" .
  have ne: "p' ! r ! c \<noteq> p' ! 0 ! 0" if "r < 9" "c < 9" "peer 0 0 r c" for r c
    using pl that by (simp add: placed_legally_def)
  have "p' ! 0 ! 1 = 1" "p' ! 0 ! 2 = 2" "p' ! 0 ! 3 = 3" "p' ! 0 ! 4 = 4" "p' ! 0 ! 5 = 5"
    "p' ! 0 ! 6 = 6" "p' ! 0 ! 7 = 7" "p' ! 0 ! 8 = 8" "p' ! 1 ! 0 = 9"
    using given [of 0 1] given [of 0 2] given [of 0 3] given [of 0 4] given [of 0 5]
      given [of 0 6] given [of 0 7] given [of 0 8] given [of 1 0]
    by (simp_all add: no_digit_board_def)
  moreover have "p' ! 0 ! 1 \<noteq> p' ! 0 ! 0" "p' ! 0 ! 2 \<noteq> p' ! 0 ! 0" "p' ! 0 ! 3 \<noteq> p' ! 0 ! 0"
    "p' ! 0 ! 4 \<noteq> p' ! 0 ! 0" "p' ! 0 ! 5 \<noteq> p' ! 0 ! 0" "p' ! 0 ! 6 \<noteq> p' ! 0 ! 0"
    "p' ! 0 ! 7 \<noteq> p' ! 0 ! 0" "p' ! 0 ! 8 \<noteq> p' ! 0 ! 0" "p' ! 1 ! 0 \<noteq> p' ! 0 ! 0"
    using ne [of 0 1] ne [of 0 2] ne [of 0 3] ne [of 0 4] ne [of 0 5]
      ne [of 0 6] ne [of 0 7] ne [of 0 8] ne [of 1 0]
    by (simp_all add: peer_def)
  ultimately show False using v by auto
qed

section \<open>Task construction and the message text\<close>

lemma init_tasks_length: "length (init_tasks rand sv p N i k) = N - i"
proof (induction rand sv p N i k rule: init_tasks.induct)
  case (1 rand sv p N i k)
  then show ?case by (subst init_tasks.simps) auto
qed

lemma init_tasks_nth:
  "j < N - i \<Longrightarrow>
   init_tasks rand sv p N i k ! j =
     \<lparr>completed = False, board_z = p, start_z = sv N (i + j),
      row_z = rand (k + 2 * j) mod 9, col_z = rand (k + 2 * j + 1) mod 9\<rparr>"
proof (induction rand sv p N i k arbitrary: j rule: init_tasks.induct)
  case (1 rand sv p N i k)
  from "1.prems" have lt: "i < N" by simp
  show ?case
  proof (cases j)
    case 0
    with lt show ?thesis by (subst init_tasks.simps) simp
  next
    case (Suc j')
    with "1.prems" have "j' < N - (i + 1)" by simp
    from "1.IH" [OF lt this] Suc lt show ?thesis
      by (subst init_tasks.simps) simp
  qed
qed















section \<open>The history of legality tests\<close>

lemma sudokuHelper_traced_latched:
  "g (nreads s) \<Longrightarrow>
   sudokuHelper_traced g s row col startV nTimes seen =
     (True, s\<lparr>nreads := nreads s + 1, rdheld := rdheld s + 1\<rparr>, seen)"
  by (simp add: sudokuHelper_traced.simps [of g s])

lemma sudokuHelper_traced_depth81:
  "\<not> g (nreads s) \<Longrightarrow>
   sudokuHelper_traced g s row col startV 81 seen = (True, s\<lparr>nreads := nreads s + 1\<rparr>, seen)"
  by (simp add: sudokuHelper_traced.simps [of g s])

lemma sudokuHelper_traced_given:
  "\<not> g (nreads s) \<Longrightarrow> nTimes \<noteq> 81 \<Longrightarrow> advance row col = (r, c) \<Longrightarrow> grid s ! r ! c \<noteq> 0 \<Longrightarrow>
   sudokuHelper_traced g s row col startV nTimes seen =
     sudokuHelper_traced g (s\<lparr>nreads := nreads s + 1\<rparr>) r c startV (nTimes + 1) seen"
  by (simp add: sudokuHelper_traced.simps [of g s])

lemma sudokuHelper_traced_empty:
  "\<not> g (nreads s) \<Longrightarrow> nTimes \<noteq> 81 \<Longrightarrow> advance row col = (r, c) \<Longrightarrow> grid s ! r ! c = 0 \<Longrightarrow>
   sudokuHelper_traced g s row col startV nTimes seen =
     candidates_traced g (s\<lparr>nreads := nreads s + 1\<rparr>) r c startV nTimes 1 seen"
  by (simp add: sudokuHelper_traced.simps [of g s])

lemma candidates_traced_end:
  "\<not> val \<le> 9 \<Longrightarrow>
   candidates_traced g s row col startV nTimes val seen =
     (False, s\<lparr>grid := set_cell (grid s) row col 0\<rparr>, seen)"
  by (simp add: candidates_traced.simps [of g s row col startV nTimes val])

lemma candidates_traced_illegal:
  "val \<le> 9 \<Longrightarrow> \<not> isValid (next_startV startV) (grid s) row col \<Longrightarrow>
   candidates_traced g s row col startV nTimes val seen =
     candidates_traced g s row col (next_startV startV) nTimes (val + 1)
       (seen @ [grid s ! row ! col])"
  by (simp add: candidates_traced.simps [of g s row col startV nTimes val])

lemma candidates_traced_legal:
  "val \<le> 9 \<Longrightarrow> isValid (next_startV startV) (grid s) row col \<Longrightarrow>
   sudokuHelper_traced g (s\<lparr>grid := set_cell (grid s) row col (next_startV startV)\<rparr>)
     row col (next_startV startV) (nTimes + 1) (seen @ [grid s ! row ! col]) = (b, s1, seen1) \<Longrightarrow>
   candidates_traced g s row col startV nTimes val seen =
     (if b then (True, s1, seen1)
      else candidates_traced g s1 row col (next_startV startV) nTimes (val + 1) seen1)"
  by (simp add: candidates_traced.simps [of g s row col startV nTimes val])

lemma traced_induct [case_names helper loop]:
  fixes P :: "(nat \<Rightarrow> bool) \<Rightarrow> thread_state \<Rightarrow> nat \<Rightarrow> nat \<Rightarrow> cint \<Rightarrow> cint \<Rightarrow> cint list \<Rightarrow> bool"
    and Q :: "(nat \<Rightarrow> bool) \<Rightarrow> thread_state \<Rightarrow> nat \<Rightarrow> nat \<Rightarrow> cint \<Rightarrow> cint \<Rightarrow> nat \<Rightarrow> cint list \<Rightarrow> bool"
  assumes H: "\<And>g s row col startV nTimes seen.
      (\<And>r c. \<not> g (nreads s) \<Longrightarrow> nTimes \<noteq> 81 \<Longrightarrow> advance row col = (r, c) \<Longrightarrow>
              grid s ! r ! c \<noteq> 0 \<Longrightarrow>
              P g (s\<lparr>nreads := nreads s + 1\<rparr>) r c startV (nTimes + 1) seen) \<Longrightarrow>
      (\<And>r c. \<not> g (nreads s) \<Longrightarrow> nTimes \<noteq> 81 \<Longrightarrow> advance row col = (r, c) \<Longrightarrow>
              grid s ! r ! c = 0 \<Longrightarrow>
              Q g (s\<lparr>nreads := nreads s + 1\<rparr>) r c startV nTimes 1 seen) \<Longrightarrow>
      P g s row col startV nTimes seen"
    and L: "\<And>g s row col startV nTimes val seen.
      (val \<le> 9 \<Longrightarrow> isValid (next_startV startV) (grid s) row col \<Longrightarrow>
         P g (s\<lparr>grid := set_cell (grid s) row col (next_startV startV)\<rparr>)
           row col (next_startV startV) (nTimes + 1) (seen @ [grid s ! row ! col])) \<Longrightarrow>
      (\<And>s1 seen1. val \<le> 9 \<Longrightarrow> isValid (next_startV startV) (grid s) row col \<Longrightarrow>
         sudokuHelper_traced g (s\<lparr>grid := set_cell (grid s) row col (next_startV startV)\<rparr>)
           row col (next_startV startV) (nTimes + 1) (seen @ [grid s ! row ! col]) =
           (False, s1, seen1) \<Longrightarrow>
         Q g s1 row col (next_startV startV) nTimes (val + 1) seen1) \<Longrightarrow>
      (val \<le> 9 \<Longrightarrow> \<not> isValid (next_startV startV) (grid s) row col \<Longrightarrow>
         Q g s row col (next_startV startV) nTimes (val + 1) (seen @ [grid s ! row ! col])) \<Longrightarrow>
      Q g s row col startV nTimes val seen"
  shows "P g s row col startV nTimes seen" and "Q g s row col startV nTimes val seen"
proof (induction g s row col startV nTimes seen and g s row col startV nTimes val seen
       rule: sudokuHelper_traced_candidates_traced.induct)
  case (1 g s row col startV nTimes seen)
  show ?case
  proof (rule H)
    fix r c
    assume a: "\<not> g (nreads s)" "nTimes \<noteq> 81" "advance row col = (r, c)" "grid s ! r ! c \<noteq> 0"
    from "1.IH"(1) [OF refl a(1) refl a(2) [symmetric] refl a(3) [symmetric]] a(4)
    show "P g (s\<lparr>nreads := nreads s + 1\<rparr>) r c startV (nTimes + 1) seen" by simp
  next
    fix r c
    assume a: "\<not> g (nreads s)" "nTimes \<noteq> 81" "advance row col = (r, c)" "grid s ! r ! c = 0"
    from "1.IH"(2) [OF refl a(1) refl a(2) [symmetric] refl a(3) [symmetric]] a(4)
    show "Q g (s\<lparr>nreads := nreads s + 1\<rparr>) r c startV nTimes 1 seen" by simp
  qed
next
  case (2 g s row col startV nTimes val seen)
  show ?case
  proof (rule L)
    assume "val \<le> 9" "isValid (next_startV startV) (grid s) row col"
    then show "P g (s\<lparr>grid := set_cell (grid s) row col (next_startV startV)\<rparr>)
           row col (next_startV startV) (nTimes + 1) (seen @ [grid s ! row ! col])"
      using "2.IH"(1) by simp
  next
    fix s1 seen1
    assume a: "val \<le> 9" "isValid (next_startV startV) (grid s) row col"
      "sudokuHelper_traced g (s\<lparr>grid := set_cell (grid s) row col (next_startV startV)\<rparr>)
           row col (next_startV startV) (nTimes + 1) (seen @ [grid s ! row ! col]) =
           (False, s1, seen1)"
    from "2.IH"(2) [OF a(1) refl refl a(2) a(3) [symmetric] refl refl]
    show "Q g s1 row col (next_startV startV) nTimes (val + 1) seen1" by simp
  next
    assume "val \<le> 9" "\<not> isValid (next_startV startV) (grid s) row col"
    then show "Q g s row col (next_startV startV) nTimes (val + 1) (seen @ [grid s ! row ! col])"
      using "2.IH"(3) by simp
  qed
qed

text \<open>Without its history the traced search is the search.\<close>

lemma traced_erase:
  "(fst (sudokuHelper_traced g s row col startV nTimes seen),
    fst (snd (sudokuHelper_traced g s row col startV nTimes seen))) =
   sudokuHelper g s row col startV nTimes"
  "(fst (candidates_traced g s row col startV nTimes val seen),
    fst (snd (candidates_traced g s row col startV nTimes val seen))) =
   candidates g s row col startV nTimes val"
proof (induction g s row col startV nTimes seen and g s row col startV nTimes val seen
       rule: traced_induct)
  case (helper g s row col startV nTimes seen)
  obtain r c where adv: "advance row col = (r, c)" by (cases "advance row col")
  show ?case
  proof (cases "g (nreads s)")
    case True
    then show ?thesis by (simp add: sudokuHelper_traced_latched sudokuHelper_latched)
  next
    case ng: False
    show ?thesis
    proof (cases "nTimes = 81")
      case True
      with ng show ?thesis by (simp add: sudokuHelper_traced_depth81 sudokuHelper_depth81)
    next
      case ne: False
      show ?thesis
      proof (cases "grid s ! r ! c = 0")
        case False
        from helper(1) [OF ng ne adv False]
          sudokuHelper_traced_given [of g s, OF ng ne adv False]
          sudokuHelper_given [of g s, OF ng ne adv False]
        show ?thesis by simp
      next
        case True
        from helper(2) [OF ng ne adv True]
          sudokuHelper_traced_empty [of g s, OF ng ne adv True]
          sudokuHelper_empty [of g s, OF ng ne adv True]
        show ?thesis by simp
      qed
    qed
  qed
next
  case (loop g s row col startV nTimes val seen)
  let ?v = "next_startV startV"
  let ?sv = "s\<lparr>grid := set_cell (grid s) row col ?v\<rparr>"
  show ?case
  proof (cases "val \<le> 9")
    case False
    then show ?thesis by (simp add: candidates_traced_end candidates_end)
  next
    case le: True
    show ?thesis
    proof (cases "isValid ?v (grid s) row col")
      case False
      from loop(3) [OF le False] candidates_traced_illegal [OF le False, of g nTimes seen]
        candidates_illegal [OF le False, of g nTimes]
      show ?thesis by simp
    next
      case True
      obtain b s1 seen1 where rec:
        "sudokuHelper_traced g ?sv row col ?v (nTimes + 1) (seen @ [grid s ! row ! col]) = (b, s1, seen1)"
        by (cases "sudokuHelper_traced g ?sv row col ?v (nTimes + 1) (seen @ [grid s ! row ! col])")
      with loop(1) [OF le True] have rec0: "sudokuHelper g ?sv row col ?v (nTimes + 1) = (b, s1)"
        by simp
      show ?thesis
      proof (cases b)
        case True
        with candidates_traced_legal [OF le \<open>isValid ?v (grid s) row col\<close> rec]
          candidates_legal [OF le \<open>isValid ?v (grid s) row col\<close> rec0]
        show ?thesis by simp
      next
        case False
        with rec have "sudokuHelper_traced g ?sv row col ?v (nTimes + 1) (seen @ [grid s ! row ! col]) =
            (False, s1, seen1)" by simp
        from loop(2) [OF le True this] False
          candidates_traced_legal [OF le True rec] candidates_legal [OF le True rec0]
        show ?thesis by simp
      qed
    qed
  qed
qed

text \<open>The history only grows.\<close>

lemma traced_extends:
  "\<exists>more. snd (snd (sudokuHelper_traced g s row col startV nTimes seen)) = seen @ more"
  "\<exists>more. snd (snd (candidates_traced g s row col startV nTimes val seen)) = seen @ more"
proof (induction g s row col startV nTimes seen and g s row col startV nTimes val seen
       rule: traced_induct)
  case (helper g s row col startV nTimes seen)
  obtain r c where adv: "advance row col = (r, c)" by (cases "advance row col")
  show ?case
  proof (cases "g (nreads s)")
    case True
    then show ?thesis by (simp add: sudokuHelper_traced_latched)
  next
    case ng: False
    show ?thesis
    proof (cases "nTimes = 81")
      case True
      with ng show ?thesis by (simp add: sudokuHelper_traced_depth81)
    next
      case ne: False
      show ?thesis
      proof (cases "grid s ! r ! c = 0")
        case False
        from helper(1) [OF ng ne adv False]
          sudokuHelper_traced_given [of g s, OF ng ne adv False]
        show ?thesis by simp
      next
        case True
        from helper(2) [OF ng ne adv True]
          sudokuHelper_traced_empty [of g s, OF ng ne adv True]
        show ?thesis by simp
      qed
    qed
  qed
next
  case (loop g s row col startV nTimes val seen)
  let ?v = "next_startV startV"
  let ?sv = "s\<lparr>grid := set_cell (grid s) row col ?v\<rparr>"
  let ?seen = "seen @ [grid s ! row ! col]"
  show ?case
  proof (cases "val \<le> 9")
    case False
    then show ?thesis by (simp add: candidates_traced_end)
  next
    case le: True
    show ?thesis
    proof (cases "isValid ?v (grid s) row col")
      case False
      from loop(3) [OF le False] obtain more where
        "snd (snd (candidates_traced g s row col ?v nTimes (val + 1) ?seen)) = ?seen @ more" ..
      with candidates_traced_illegal [OF le False, of g nTimes seen]
      show ?thesis by simp
    next
      case True
      obtain b s1 seen1 where rec:
        "sudokuHelper_traced g ?sv row col ?v (nTimes + 1) ?seen = (b, s1, seen1)"
        by (cases "sudokuHelper_traced g ?sv row col ?v (nTimes + 1) ?seen")
      from loop(1) [OF le True] rec obtain m1 where m1: "seen1 = ?seen @ m1" by auto
      show ?thesis
      proof (cases b)
        case True
        with candidates_traced_legal [OF le \<open>isValid ?v (grid s) row col\<close> rec] m1
        show ?thesis by simp
      next
        case False
        with rec have "sudokuHelper_traced g ?sv row col ?v (nTimes + 1) ?seen = (False, s1, seen1)"
          by simp
        from loop(2) [OF le True this] obtain m2 where
          "snd (snd (candidates_traced g s1 row col ?v nTimes (val + 1) seen1)) = seen1 @ m2" ..
        with candidates_traced_legal [OF le True rec] False m1
        show ?thesis by simp
      qed
    qed
  qed
qed

text \<open>The first test of a loop records the cell as the loop finds it.\<close>

lemma first_test_seen:
  assumes le: "val \<le> 9"
  shows "\<exists>more. snd (snd (candidates_traced g s row col startV nTimes val seen)) =
           seen @ [grid s ! row ! col] @ more"
proof -
  let ?v = "next_startV startV"
  let ?sv = "s\<lparr>grid := set_cell (grid s) row col ?v\<rparr>"
  let ?seen = "seen @ [grid s ! row ! col]"
  show ?thesis
  proof (cases "isValid ?v (grid s) row col")
    case False
    from traced_extends(2) [of g s row col ?v nTimes "val + 1" ?seen] obtain more where
      "snd (snd (candidates_traced g s row col ?v nTimes (val + 1) ?seen)) = ?seen @ more" ..
    with candidates_traced_illegal [OF le False, of g nTimes seen] show ?thesis by simp
  next
    case True
    obtain b s1 seen1 where rec:
      "sudokuHelper_traced g ?sv row col ?v (nTimes + 1) ?seen = (b, s1, seen1)"
      by (cases "sudokuHelper_traced g ?sv row col ?v (nTimes + 1) ?seen")
    from traced_extends(1) [of g ?sv row col ?v "nTimes + 1" ?seen] rec
    obtain m1 where m1: "seen1 = ?seen @ m1" by auto
    show ?thesis
    proof (cases b)
      case True
      with candidates_traced_legal [OF le \<open>isValid ?v (grid s) row col\<close> rec] m1
      show ?thesis by simp
    next
      case False
      from traced_extends(2) [of g s1 row col ?v nTimes "val + 1" seen1] obtain m2 where
        "snd (snd (candidates_traced g s1 row col ?v nTimes (val + 1) seen1)) = seen1 @ m2" ..
      with candidates_traced_legal [OF le True rec] False m1 show ?thesis by simp
    qed
  qed
qed

section \<open>The race: facts of every run\<close>

text \<open>
  \<open>threads_ok\<close> holds at the start and is kept by every step: first the supervisor's steps,
  then, place by place, the worker's.
\<close>

lemma threads_ok_init: "threads_ok n (init_sys n)"
  by (simp add: threads_ok_def init_sys_def sizes_ok_def readers_ok_def holder_ok_def
      winner_ok_def phase_ok_def phase_at_def logs_ok_def exit_ok_def critical_def needs_lock_def)

lemma main_step_frame:
  assumes "main_step s = Some s'"
  shows "flag s' = flag s" "wr_owner s' = wr_owner s" "rd_count s' = rd_count s"
    "wpcs s' = wpcs s" "winners s' = winners s" "setters s' = setters s"
    "reporters s' = reporters s" "mpc s' = MDone \<longrightarrow> flag s"
  using assms by (auto simp: main_step_def split: mpc.splits if_splits)

lemma main_step_ok:
  assumes ok: "threads_ok n s" and st: "main_step s = Some s'"
  shows "threads_ok n s'"
proof -
  note fr = main_step_frame [OF st]
  from ok have "sizes_ok n s'" by (simp add: threads_ok_def sizes_ok_def fr)
  moreover from ok have "readers_ok n s'" by (simp add: threads_ok_def readers_ok_def fr)
  moreover from ok have "holder_ok n s'" by (simp add: threads_ok_def holder_ok_def fr)
  moreover from ok have "winner_ok n s'" by (simp add: threads_ok_def winner_ok_def fr)
  moreover from ok have "phase_ok n s'" by (simp add: threads_ok_def phase_ok_def fr)
  moreover from ok have "logs_ok n s'" by (simp add: threads_ok_def logs_ok_def fr)
  moreover have "exit_ok s'" using fr(8) by (simp add: exit_ok_def fr)
  ultimately show ?thesis by (simp add: threads_ok_def)
qed

lemma threads_okD:
  assumes "threads_ok n s"
  shows "sizes_ok n s" "readers_ok n s" "holder_ok n s" "winner_ok n s" "phase_ok n s"
    "logs_ok n s" "exit_ok s"
  using assms by (simp_all add: threads_ok_def)

lemma readers_ok_moved:
  assumes "readers_ok n s" "sizes_ok n s" "t < n" "wpcs s' = (wpcs s)[t := p']"
    and mono: "flag s \<Longrightarrow> flag s'"
    and A: "\<not> flag s' \<Longrightarrow> rd_count s' ! t = (if p' = Probing then 1 else 0)"
    and B: "\<And>u. u < n \<Longrightarrow> u \<noteq> t \<Longrightarrow> rd_count s' ! u = rd_count s ! u"
  shows "readers_ok n s'"
  unfolding readers_ok_def
proof (intro impI allI)
  fix u assume nf: "\<not> flag s'" and u: "u < n"
  from nf mono have nf0: "\<not> flag s" by blast
  show "rd_count s' ! u = (if wpcs s' ! u = Probing then 1 else 0)"
  proof (cases "u = t")
    case True
    with A [OF nf] assms(2,3,4) show ?thesis by (simp add: sizes_ok_def)
  next
    case False
    with assms(1) nf0 u B [OF u False] assms(4) show ?thesis by (simp add: readers_ok_def)
  qed
qed

lemma needs_lock_mono: "needs_lock p f' \<Longrightarrow> (f \<Longrightarrow> f') \<Longrightarrow> needs_lock p f"
  by (auto simp: needs_lock_def)

lemma holder_ok_moved:
  assumes "holder_ok n s" "sizes_ok n s" "t < n" "wpcs s' = (wpcs s)[t := p']"
    and mono: "flag s \<Longrightarrow> flag s'"
    and A: "needs_lock p' (flag s') \<Longrightarrow> wr_owner s' = Some t"
    and B: "\<And>u. u < n \<Longrightarrow> u \<noteq> t \<Longrightarrow> needs_lock (wpcs s ! u) (flag s) \<Longrightarrow> wr_owner s' = wr_owner s"
  shows "holder_ok n s'"
  unfolding holder_ok_def
proof (intro impI allI)
  fix u assume u: "u < n" and need: "needs_lock (wpcs s' ! u) (flag s')"
  show "wr_owner s' = Some u"
  proof (cases "u = t")
    case True
    with need assms(2,3,4) have "needs_lock p' (flag s')" by (simp add: sizes_ok_def)
    with A True show ?thesis by simp
  next
    case False
    with need assms(4) have "needs_lock (wpcs s ! u) (flag s')" by simp
    then have n0: "needs_lock (wpcs s ! u) (flag s)" using mono by (rule needs_lock_mono)
    with assms(1) u have "wr_owner s = Some u" by (simp add: holder_ok_def)
    with B [OF u False n0] show ?thesis by simp
  qed
qed

lemma winner_ok_moved:
  assumes "winner_ok n s" "sizes_ok n s" "t < n" "wpcs s' = (wpcs s)[t := p']"
    and A: "critical p' \<Longrightarrow> winners s' = [t]"
    and B: "\<And>u. u < n \<Longrightarrow> u \<noteq> t \<Longrightarrow> critical (wpcs s ! u) \<Longrightarrow> winners s' = winners s"
  shows "winner_ok n s'"
  unfolding winner_ok_def
proof (intro impI allI)
  fix u assume u: "u < n" and c: "critical (wpcs s' ! u)"
  show "winners s' = [u]"
  proof (cases "u = t")
    case True
    with c assms(2,3,4) have "critical p'" by (simp add: sizes_ok_def)
    with A True show ?thesis by simp
  next
    case False
    with c assms(4) have c0: "critical (wpcs s ! u)" by simp
    with assms(1) u have "winners s = [u]" by (simp add: winner_ok_def)
    with B [OF u False c0] show ?thesis by simp
  qed
qed

lemma phase_at_trivial: "\<not> critical p \<Longrightarrow> phase_at p f rep t"
  by (auto simp: phase_at_def critical_def)

lemma phase_ok_moved:
  assumes "phase_ok n s" "sizes_ok n s" "t < n" "wpcs s' = (wpcs s)[t := p']"
    and A: "phase_at p' (flag s') (reporters s') t"
    and B: "\<And>u. u < n \<Longrightarrow> u \<noteq> t \<Longrightarrow> critical (wpcs s ! u) \<Longrightarrow>
              flag s' = flag s \<and> reporters s' = reporters s"
  shows "phase_ok n s'"
  unfolding phase_ok_def
proof (intro impI allI)
  fix u assume u: "u < n"
  show "phase_at (wpcs s' ! u) (flag s') (reporters s') u"
  proof (cases "u = t")
    case True
    with A assms(2,3,4) show ?thesis by (simp add: sizes_ok_def)
  next
    case False
    then have same: "wpcs s' ! u = wpcs s ! u" using assms(4) by simp
    show ?thesis
    proof (cases "critical (wpcs s ! u)")
      case True
      from B [OF u False True] assms(1) u same show ?thesis by (simp add: phase_ok_def)
    next
      case False
      then show ?thesis by (simp add: same phase_at_trivial)
    qed
  qed
qed

lemma logs_ok_frame:
  assumes "logs_ok n s" "flag s' = flag s" "winners s' = winners s" "setters s' = setters s"
    "reporters s' = reporters s"
    "\<And>u. u < n \<Longrightarrow> wpcs s ! u = Winning \<or> wpcs s ! u = InMutex \<Longrightarrow>
          wpcs s' ! u = Winning \<or> wpcs s' ! u = InMutex"
  shows "logs_ok n s'"
proof -
  have "winners s = [] \<or> (\<exists>t<n. winners s = [t] \<and> (wpcs s' ! t = Winning \<or> wpcs s' ! t = InMutex))"
    if "\<not> flag s"
    using assms(1,6) that unfolding logs_ok_def by blast
  with assms(1-5) show ?thesis unfolding logs_ok_def by simp
qed

lemma logs_ok_moved:
  assumes "logs_ok n s" "sizes_ok n s" "t < n" "wpcs s' = (wpcs s)[t := p']"
    "flag s' = flag s" "winners s' = winners s" "setters s' = setters s"
    "reporters s' = reporters s"
    and A: "wpcs s ! t = Winning \<or> wpcs s ! t = InMutex \<Longrightarrow> p' = Winning \<or> p' = InMutex"
  shows "logs_ok n s'"
proof (rule logs_ok_frame [OF assms(1) assms(5-8)])
  fix u assume u: "u < n" and w: "wpcs s ! u = Winning \<or> wpcs s ! u = InMutex"
  show "wpcs s' ! u = Winning \<or> wpcs s' ! u = InMutex"
  proof (cases "u = t")
    case True
    with A w assms(2,3,4) show ?thesis by (simp add: sizes_ok_def)
  next
    case False
    with w assms(4) show ?thesis by simp
  qed
qed

lemma critical_unique:
  "winner_ok n s \<Longrightarrow> t < n \<Longrightarrow> u < n \<Longrightarrow> critical (wpcs s ! t) \<Longrightarrow> critical (wpcs s ! u) \<Longrightarrow>
   u = t"
  unfolding winner_ok_def by (metis list.inject)

lemma holder_unique:
  "holder_ok n s \<Longrightarrow> t < n \<Longrightarrow> u < n \<Longrightarrow> needs_lock (wpcs s ! t) (flag s) \<Longrightarrow>
   needs_lock (wpcs s ! u) (flag s) \<Longrightarrow> u = t"
  unfolding holder_ok_def by (metis option.inject)

lemma thread_facts:
  assumes "threads_ok n s" "t < n"
  shows "length (wpcs s) = n" "length (rd_count s) = n"
    "\<not> flag s \<Longrightarrow> rd_count s ! t = (if wpcs s ! t = Probing then 1 else 0)"
    "needs_lock (wpcs s ! t) (flag s) \<Longrightarrow> wr_owner s = Some t"
    "critical (wpcs s ! t) \<Longrightarrow> winners s = [t]"
    "phase_at (wpcs s ! t) (flag s) (reporters s) t"
  using assms
  by (simp_all add: threads_ok_def sizes_ok_def readers_ok_def holder_ok_def winner_ok_def
      phase_ok_def)

lemma step_searching:
  assumes ok: "threads_ok n s" and t: "t < n" and pc: "wpcs s ! t = Searching"
    and s': "s' = s\<lparr>rd_count := (rd_count s)[t := rd_count s ! t + 1], wpcs := (wpcs s)[t := Probing]\<rparr>"
  shows "threads_ok n s'"
proof -
  note inv = threads_okD [OF ok]
  note tf = thread_facts [OF ok t]
  have w: "wpcs s' = (wpcs s)[t := Probing]" by (simp add: s')
  have "sizes_ok n s'" using inv(1) by (simp add: s' sizes_ok_def)
  moreover have "readers_ok n s'"
    by (rule readers_ok_moved [OF inv(2) inv(1) t w])
       (use tf pc t in \<open>auto simp: s'\<close>)
  moreover have "holder_ok n s'"
    by (rule holder_ok_moved [OF inv(3) inv(1) t w])
       (use tf pc in \<open>simp_all add: s' needs_lock_def critical_def\<close>)
  moreover have "winner_ok n s'"
    by (rule winner_ok_moved [OF inv(4) inv(1) t w])
       (use tf pc in \<open>simp_all add: s' critical_def\<close>)
  moreover have "phase_ok n s'"
    by (rule phase_ok_moved [OF inv(5) inv(1) t w])
       (use tf pc in \<open>simp_all add: s' phase_at_def\<close>)
  moreover have "logs_ok n s'"
    by (rule logs_ok_moved [OF inv(6) inv(1) t w])
       (use pc in \<open>simp_all add: s'\<close>)
  moreover have "exit_ok s'" using inv(7) by (simp add: s' exit_ok_def)
  ultimately show ?thesis by (simp add: threads_ok_def)
qed

lemma step_probing_set:
  assumes ok: "threads_ok n s" and t: "t < n" and pc: "wpcs s ! t = Probing"
    and fl: "flag s"
    and s': "s' = s\<lparr>wpcs := (wpcs s)[t := WantWrite]\<rparr>"
  shows "threads_ok n s'"
proof -
  note inv = threads_okD [OF ok]
  note tf = thread_facts [OF ok t]
  have w: "wpcs s' = (wpcs s)[t := WantWrite]" by (simp add: s')
  have "sizes_ok n s'" using inv(1) by (simp add: s' sizes_ok_def)
  moreover have "readers_ok n s'"
    by (rule readers_ok_moved [OF inv(2) inv(1) t w])
       (use tf pc t fl in \<open>auto simp: s'\<close>)
  moreover have "holder_ok n s'"
    by (rule holder_ok_moved [OF inv(3) inv(1) t w])
       (use tf pc fl in \<open>simp_all add: s' needs_lock_def critical_def\<close>)
  moreover have "winner_ok n s'"
    by (rule winner_ok_moved [OF inv(4) inv(1) t w])
       (use tf pc in \<open>simp_all add: s' critical_def\<close>)
  moreover have "phase_ok n s'"
    by (rule phase_ok_moved [OF inv(5) inv(1) t w])
       (use tf pc in \<open>simp_all add: s' phase_at_def\<close>)
  moreover have "logs_ok n s'"
    by (rule logs_ok_moved [OF inv(6) inv(1) t w])
       (use pc in \<open>simp_all add: s'\<close>)
  moreover have "exit_ok s'" using inv(7) by (simp add: s' exit_ok_def)
  ultimately show ?thesis by (simp add: threads_ok_def)
qed

lemma step_probing_goes_on:
  assumes ok: "threads_ok n s" and t: "t < n" and pc: "wpcs s ! t = Probing"
    and fl: "\<not> flag s"
    and s': "s' = s\<lparr>rd_count := (rd_count s)[t := rd_count s ! t - 1], wpcs := (wpcs s)[t := Searching]\<rparr>"
  shows "threads_ok n s'"
proof -
  note inv = threads_okD [OF ok]
  note tf = thread_facts [OF ok t]
  have w: "wpcs s' = (wpcs s)[t := Searching]" by (simp add: s')
  have "sizes_ok n s'" using inv(1) by (simp add: s' sizes_ok_def)
  moreover have "readers_ok n s'"
    by (rule readers_ok_moved [OF inv(2) inv(1) t w])
       (use tf pc t fl in \<open>auto simp: s'\<close>)
  moreover have "holder_ok n s'"
    by (rule holder_ok_moved [OF inv(3) inv(1) t w])
       (use tf pc fl in \<open>simp_all add: s' needs_lock_def critical_def\<close>)
  moreover have "winner_ok n s'"
    by (rule winner_ok_moved [OF inv(4) inv(1) t w])
       (use tf pc in \<open>simp_all add: s' critical_def\<close>)
  moreover have "phase_ok n s'"
    by (rule phase_ok_moved [OF inv(5) inv(1) t w])
       (use tf pc in \<open>simp_all add: s' phase_at_def\<close>)
  moreover have "logs_ok n s'"
    by (rule logs_ok_moved [OF inv(6) inv(1) t w])
       (use pc in \<open>simp_all add: s'\<close>)
  moreover have "exit_ok s'" using inv(7) by (simp add: s' exit_ok_def)
  ultimately show ?thesis by (simp add: threads_ok_def)
qed

lemma step_probing_returns:
  assumes ok: "threads_ok n s" and t: "t < n" and pc: "wpcs s ! t = Probing"
    and fl: "\<not> flag s"
    and s': "s' = s\<lparr>rd_count := (rd_count s)[t := rd_count s ! t - 1], wpcs := (wpcs s)[t := WantWrite]\<rparr>"
  shows "threads_ok n s'"
proof -
  note inv = threads_okD [OF ok]
  note tf = thread_facts [OF ok t]
  have w: "wpcs s' = (wpcs s)[t := WantWrite]" by (simp add: s')
  have "sizes_ok n s'" using inv(1) by (simp add: s' sizes_ok_def)
  moreover have "readers_ok n s'"
    by (rule readers_ok_moved [OF inv(2) inv(1) t w])
       (use tf pc t fl in \<open>auto simp: s'\<close>)
  moreover have "holder_ok n s'"
    by (rule holder_ok_moved [OF inv(3) inv(1) t w])
       (use tf pc fl in \<open>simp_all add: s' needs_lock_def critical_def\<close>)
  moreover have "winner_ok n s'"
    by (rule winner_ok_moved [OF inv(4) inv(1) t w])
       (use tf pc in \<open>simp_all add: s' critical_def\<close>)
  moreover have "phase_ok n s'"
    by (rule phase_ok_moved [OF inv(5) inv(1) t w])
       (use tf pc in \<open>simp_all add: s' phase_at_def\<close>)
  moreover have "logs_ok n s'"
    by (rule logs_ok_moved [OF inv(6) inv(1) t w])
       (use pc in \<open>simp_all add: s'\<close>)
  moreover have "exit_ok s'" using inv(7) by (simp add: s' exit_ok_def)
  ultimately show ?thesis by (simp add: threads_ok_def)
qed

lemma step_refused:
  assumes ok: "threads_ok n s" and t: "t < n" and pc: "wpcs s ! t = WantWrite"
    and held: "0 < rd_count s ! t"
    and s': "s' = s\<lparr>wpcs := (wpcs s)[t := Holding]\<rparr>"
  shows "threads_ok n s'"
proof -
  note inv = threads_okD [OF ok]
  note tf = thread_facts [OF ok t]
  have w: "wpcs s' = (wpcs s)[t := Holding]" by (simp add: s')
  have fl: "flag s" using tf(3) held pc by auto
  have "sizes_ok n s'" using inv(1) by (simp add: s' sizes_ok_def)
  moreover have "readers_ok n s'"
    by (rule readers_ok_moved [OF inv(2) inv(1) t w])
       (use tf pc t fl in \<open>auto simp: s'\<close>)
  moreover have "holder_ok n s'"
    by (rule holder_ok_moved [OF inv(3) inv(1) t w])
       (use tf pc fl in \<open>simp_all add: s' needs_lock_def critical_def\<close>)
  moreover have "winner_ok n s'"
    by (rule winner_ok_moved [OF inv(4) inv(1) t w])
       (use tf pc in \<open>simp_all add: s' critical_def\<close>)
  moreover have "phase_ok n s'"
    by (rule phase_ok_moved [OF inv(5) inv(1) t w])
       (use tf pc in \<open>simp_all add: s' phase_at_def\<close>)
  moreover have "logs_ok n s'"
    by (rule logs_ok_moved [OF inv(6) inv(1) t w])
       (use pc in \<open>simp_all add: s'\<close>)
  moreover have "exit_ok s'" using inv(7) by (simp add: s' exit_ok_def)
  ultimately show ?thesis by (simp add: threads_ok_def)
qed

lemma step_holding_set:
  assumes ok: "threads_ok n s" and t: "t < n" and pc: "wpcs s ! t = Holding"
    and fl: "flag s"
    and s': "s' = s\<lparr>wpcs := (wpcs s)[t := Returned]\<rparr>"
  shows "threads_ok n s'"
proof -
  note inv = threads_okD [OF ok]
  note tf = thread_facts [OF ok t]
  have w: "wpcs s' = (wpcs s)[t := Returned]" by (simp add: s')
  have "sizes_ok n s'" using inv(1) by (simp add: s' sizes_ok_def)
  moreover have "readers_ok n s'"
    by (rule readers_ok_moved [OF inv(2) inv(1) t w])
       (use tf pc t fl in \<open>auto simp: s'\<close>)
  moreover have "holder_ok n s'"
    by (rule holder_ok_moved [OF inv(3) inv(1) t w])
       (use tf pc fl in \<open>simp_all add: s' needs_lock_def critical_def\<close>)
  moreover have "winner_ok n s'"
    by (rule winner_ok_moved [OF inv(4) inv(1) t w])
       (use tf pc in \<open>simp_all add: s' critical_def\<close>)
  moreover have "phase_ok n s'"
    by (rule phase_ok_moved [OF inv(5) inv(1) t w])
       (use tf pc in \<open>simp_all add: s' phase_at_def\<close>)
  moreover have "logs_ok n s'"
    by (rule logs_ok_moved [OF inv(6) inv(1) t w])
       (use pc in \<open>simp_all add: s'\<close>)
  moreover have "exit_ok s'" using inv(7) by (simp add: s' exit_ok_def)
  ultimately show ?thesis by (simp add: threads_ok_def)
qed

lemma step_winning:
  assumes ok: "threads_ok n s" and t: "t < n" and pc: "wpcs s ! t = Winning"
    and s': "s' = s\<lparr>mtx := Some (Worker t), wpcs := (wpcs s)[t := InMutex]\<rparr>"
  shows "threads_ok n s'"
proof -
  note inv = threads_okD [OF ok]
  note tf = thread_facts [OF ok t]
  have w: "wpcs s' = (wpcs s)[t := InMutex]" by (simp add: s')
  have "sizes_ok n s'" using inv(1) by (simp add: s' sizes_ok_def)
  moreover have "readers_ok n s'"
    by (rule readers_ok_moved [OF inv(2) inv(1) t w])
       (use tf pc t in \<open>auto simp: s'\<close>)
  moreover have "holder_ok n s'"
    by (rule holder_ok_moved [OF inv(3) inv(1) t w])
       (use tf pc in \<open>simp_all add: s' needs_lock_def critical_def\<close>)
  moreover have "winner_ok n s'"
    by (rule winner_ok_moved [OF inv(4) inv(1) t w])
       (use tf pc in \<open>simp_all add: s' critical_def\<close>)
  moreover have "phase_ok n s'"
    by (rule phase_ok_moved [OF inv(5) inv(1) t w])
       (use tf pc in \<open>simp_all add: s' phase_at_def\<close>)
  moreover have "logs_ok n s'"
    by (rule logs_ok_moved [OF inv(6) inv(1) t w])
       (use pc in \<open>simp_all add: s'\<close>)
  moreover have "exit_ok s'" using inv(7) by (simp add: s' exit_ok_def)
  ultimately show ?thesis by (simp add: threads_ok_def)
qed

lemma step_flagged:
  assumes ok: "threads_ok n s" and t: "t < n" and pc: "wpcs s ! t = Flagged"
    and s': "s' = s\<lparr>mtx := None, wpcs := (wpcs s)[t := Reporting]\<rparr>"
  shows "threads_ok n s'"
proof -
  note inv = threads_okD [OF ok]
  note tf = thread_facts [OF ok t]
  have w: "wpcs s' = (wpcs s)[t := Reporting]" by (simp add: s')
  have "sizes_ok n s'" using inv(1) by (simp add: s' sizes_ok_def)
  moreover have "readers_ok n s'"
    by (rule readers_ok_moved [OF inv(2) inv(1) t w])
       (use tf pc t in \<open>auto simp: s'\<close>)
  moreover have "holder_ok n s'"
    by (rule holder_ok_moved [OF inv(3) inv(1) t w])
       (use tf pc in \<open>simp_all add: s' needs_lock_def critical_def\<close>)
  moreover have "winner_ok n s'"
    by (rule winner_ok_moved [OF inv(4) inv(1) t w])
       (use tf pc in \<open>simp_all add: s' critical_def\<close>)
  moreover have "phase_ok n s'"
    by (rule phase_ok_moved [OF inv(5) inv(1) t w])
       (use tf pc in \<open>simp_all add: s' phase_at_def\<close>)
  moreover have "logs_ok n s'"
    by (rule logs_ok_moved [OF inv(6) inv(1) t w])
       (use pc in \<open>simp_all add: s'\<close>)
  moreover have "exit_ok s'" using inv(7) by (simp add: s' exit_ok_def)
  ultimately show ?thesis by (simp add: threads_ok_def)
qed

lemma step_signalling:
  assumes ok: "threads_ok n s" and t: "t < n" and pc: "wpcs s ! t = Signalling"
    and s': "s' = s\<lparr>wpcs := (wpcs s)[t := Returned]\<rparr>"
  shows "threads_ok n s'"
proof -
  note inv = threads_okD [OF ok]
  note tf = thread_facts [OF ok t]
  have w: "wpcs s' = (wpcs s)[t := Returned]" by (simp add: s')
  have "sizes_ok n s'" using inv(1) by (simp add: s' sizes_ok_def)
  moreover have "readers_ok n s'"
    by (rule readers_ok_moved [OF inv(2) inv(1) t w])
       (use tf pc t in \<open>auto simp: s'\<close>)
  moreover have "holder_ok n s'"
    by (rule holder_ok_moved [OF inv(3) inv(1) t w])
       (use tf pc in \<open>simp_all add: s' needs_lock_def critical_def\<close>)
  moreover have "winner_ok n s'"
    by (rule winner_ok_moved [OF inv(4) inv(1) t w])
       (use tf pc in \<open>simp_all add: s' critical_def\<close>)
  moreover have "phase_ok n s'"
    by (rule phase_ok_moved [OF inv(5) inv(1) t w])
       (use tf pc in \<open>simp_all add: s' phase_at_def\<close>)
  moreover have "logs_ok n s'"
    by (rule logs_ok_moved [OF inv(6) inv(1) t w])
       (use pc in \<open>simp_all add: s'\<close>)
  moreover have "exit_ok s'" using inv(7) by (simp add: s' exit_ok_def)
  ultimately show ?thesis by (simp add: threads_ok_def)
qed

lemma step_acquired:
  assumes ok: "threads_ok n s" and t: "t < n" and pc: "wpcs s ! t = WantWrite"
    and free: "wr_owner s = None"
    and s': "s' = s\<lparr>wr_owner := Some t, wpcs := (wpcs s)[t := Holding]\<rparr>"
  shows "threads_ok n s'"
proof -
  note inv = threads_okD [OF ok]
  note tf = thread_facts [OF ok t]
  have w: "wpcs s' = (wpcs s)[t := Holding]" by (simp add: s')
  have nobody: "\<not> needs_lock (wpcs s ! u) (flag s)" if "u < n" for u
    using inv(3) that free by (auto simp: holder_ok_def)
  have "sizes_ok n s'" using inv(1) by (simp add: s' sizes_ok_def)
  moreover have "readers_ok n s'"
    by (rule readers_ok_moved [OF inv(2) inv(1) t w]) (use tf pc t in \<open>auto simp: s'\<close>)
  moreover have "holder_ok n s'"
    by (rule holder_ok_moved [OF inv(3) inv(1) t w]) (use nobody in \<open>simp_all add: s'\<close>)
  moreover have "winner_ok n s'"
    by (rule winner_ok_moved [OF inv(4) inv(1) t w])
       (use tf pc in \<open>simp_all add: s' critical_def\<close>)
  moreover have "phase_ok n s'"
    by (rule phase_ok_moved [OF inv(5) inv(1) t w])
       (use tf pc in \<open>simp_all add: s' phase_at_def\<close>)
  moreover have "logs_ok n s'"
    by (rule logs_ok_moved [OF inv(6) inv(1) t w]) (use pc in \<open>simp_all add: s'\<close>)
  moreover have "exit_ok s'" using inv(7) by (simp add: s' exit_ok_def)
  ultimately show ?thesis by (simp add: threads_ok_def)
qed

lemma step_holding_clear:
  assumes ok: "threads_ok n s" and t: "t < n" and pc: "wpcs s ! t = Holding"
    and fl: "\<not> flag s"
    and s': "s' = s\<lparr>wpcs := (wpcs s)[t := Winning], winners := winners s @ [t]\<rparr>"
  shows "threads_ok n s'"
proof -
  note inv = threads_okD [OF ok]
  note tf = thread_facts [OF ok t]
  have w: "wpcs s' = (wpcs s)[t := Winning]" by (simp add: s')
  have need: "needs_lock (wpcs s ! t) (flag s)" using pc fl by (simp add: needs_lock_def)
  then have own: "wr_owner s = Some t" by (rule tf(4))
  have only: "\<not> needs_lock (wpcs s ! u) (flag s)" if "u < n" "u \<noteq> t" for u
    using holder_unique [OF inv(3) t that(1) need] that(2) by blast
  have nocrit: "\<not> critical (wpcs s ! u)" if "u < n" for u
  proof (cases "u = t")
    case True
    with pc show ?thesis by (simp add: critical_def)
  next
    case False
    with only [OF that] show ?thesis by (simp add: needs_lock_def)
  qed
  have nowin: "winners s = []"
  proof (rule ccontr)
    assume "winners s \<noteq> []"
    with inv(6) fl obtain u where "u < n" "wpcs s ! u = Winning \<or> wpcs s ! u = InMutex"
      by (auto simp: logs_ok_def)
    with nocrit [of u] show False by (auto simp: critical_def)
  qed
  have logs: "setters s = []" "reporters s = []" using inv(6) fl by (simp_all add: logs_ok_def)
  have "sizes_ok n s'" using inv(1) by (simp add: s' sizes_ok_def)
  moreover have "readers_ok n s'"
    by (rule readers_ok_moved [OF inv(2) inv(1) t w]) (use tf pc t fl in \<open>auto simp: s'\<close>)
  moreover have "holder_ok n s'"
    by (rule holder_ok_moved [OF inv(3) inv(1) t w]) (use own in \<open>simp_all add: s'\<close>)
  moreover have "winner_ok n s'"
    by (rule winner_ok_moved [OF inv(4) inv(1) t w]) (use nocrit nowin in \<open>simp_all add: s'\<close>)
  moreover have "phase_ok n s'"
    by (rule phase_ok_moved [OF inv(5) inv(1) t w]) (use fl in \<open>simp_all add: s' phase_at_def\<close>)
  moreover have "logs_ok n s'"
  proof -
    have "wpcs s' ! t = Winning" using tf(1) t by (simp add: s')
    with nowin logs fl t show ?thesis by (auto simp: s' logs_ok_def)
  qed
  moreover have "exit_ok s'" using inv(7) by (simp add: s' exit_ok_def)
  ultimately show ?thesis by (simp add: threads_ok_def)
qed

lemma step_inmutex:
  assumes ok: "threads_ok n s" and t: "t < n" and pc: "wpcs s ! t = InMutex"
    and s': "s' = s\<lparr>flag := True, setters := (if flag s then setters s else setters s @ [t]),
                      wpcs := (wpcs s)[t := Flagged]\<rparr>"
  shows "threads_ok n s'"
proof -
  note inv = threads_okD [OF ok]
  note tf = thread_facts [OF ok t]
  have w: "wpcs s' = (wpcs s)[t := Flagged]" by (simp add: s')
  have crit: "critical (wpcs s ! t)" using pc by (simp add: critical_def)
  have fl: "\<not> flag s" using tf(6) pc by (simp add: phase_at_def)
  have win: "winners s = [t]" using crit by (rule tf(5))
  have own: "wr_owner s = Some t" using tf(4) crit by (simp add: needs_lock_def)
  have logs: "setters s = []" "reporters s = []" using inv(6) fl by (simp_all add: logs_ok_def)
  have others: "\<not> critical (wpcs s ! u)" if "u < n" "u \<noteq> t" for u
    using critical_unique [OF inv(4) t that(1) crit] that(2) by blast
  have "sizes_ok n s'" using inv(1) by (simp add: s' sizes_ok_def)
  moreover have "readers_ok n s'" by (simp add: s' readers_ok_def)
  moreover have "holder_ok n s'"
    by (rule holder_ok_moved [OF inv(3) inv(1) t w]) (use own in \<open>simp_all add: s'\<close>)
  moreover have "winner_ok n s'"
    by (rule winner_ok_moved [OF inv(4) inv(1) t w]) (use win in \<open>simp_all add: s'\<close>)
  moreover have "phase_ok n s'"
    by (rule phase_ok_moved [OF inv(5) inv(1) t w])
       (use others logs in \<open>simp_all add: s' phase_at_def\<close>)
  moreover have "logs_ok n s'" using win logs fl by (simp add: s' logs_ok_def)
  moreover have "exit_ok s'" by (simp add: s' exit_ok_def)
  ultimately show ?thesis by (simp add: threads_ok_def)
qed

lemma step_reporting:
  assumes ok: "threads_ok n s" and t: "t < n" and pc: "wpcs s ! t = Reporting"
    and s': "s' = s\<lparr>reporters := reporters s @ [t], wpcs := (wpcs s)[t := Reported]\<rparr>"
  shows "threads_ok n s'"
proof -
  note inv = threads_okD [OF ok]
  note tf = thread_facts [OF ok t]
  have w: "wpcs s' = (wpcs s)[t := Reported]" by (simp add: s')
  have crit: "critical (wpcs s ! t)" using pc by (simp add: critical_def)
  have fl: "flag s" and rep: "reporters s = []" using tf(6) pc by (simp_all add: phase_at_def)
  have win: "winners s = [t]" using crit by (rule tf(5))
  have own: "wr_owner s = Some t" using tf(4) crit by (simp add: needs_lock_def)
  have others: "\<not> critical (wpcs s ! u)" if "u < n" "u \<noteq> t" for u
    using critical_unique [OF inv(4) t that(1) crit] that(2) by blast
  have "sizes_ok n s'" using inv(1) by (simp add: s' sizes_ok_def)
  moreover have "readers_ok n s'" using fl by (simp add: s' readers_ok_def)
  moreover have "holder_ok n s'"
    by (rule holder_ok_moved [OF inv(3) inv(1) t w]) (use own in \<open>simp_all add: s'\<close>)
  moreover have "winner_ok n s'"
    by (rule winner_ok_moved [OF inv(4) inv(1) t w]) (use win in \<open>simp_all add: s'\<close>)
  moreover have "phase_ok n s'"
    by (rule phase_ok_moved [OF inv(5) inv(1) t w])
       (use others fl rep in \<open>simp_all add: s' phase_at_def\<close>)
  moreover have "logs_ok n s'" using inv(6) win fl rep by (simp add: s' logs_ok_def)
  moreover have "exit_ok s'" using inv(7) by (simp add: s' exit_ok_def)
  ultimately show ?thesis by (simp add: threads_ok_def)
qed

lemma step_reported:
  assumes ok: "threads_ok n s" and t: "t < n" and pc: "wpcs s ! t = Reported"
    and s': "s' = s\<lparr>wr_owner := None, wpcs := (wpcs s)[t := Signalling]\<rparr>"
  shows "threads_ok n s'"
proof -
  note inv = threads_okD [OF ok]
  note tf = thread_facts [OF ok t]
  have w: "wpcs s' = (wpcs s)[t := Signalling]" by (simp add: s')
  have crit: "critical (wpcs s ! t)" using pc by (simp add: critical_def)
  have fl: "flag s" using tf(6) pc by (simp add: phase_at_def)
  have need: "needs_lock (wpcs s ! t) (flag s)" using crit by (simp add: needs_lock_def)
  have only: "\<not> needs_lock (wpcs s ! u) (flag s)" if "u < n" "u \<noteq> t" for u
    using holder_unique [OF inv(3) t that(1) need] that(2) by blast
  have "sizes_ok n s'" using inv(1) by (simp add: s' sizes_ok_def)
  moreover have "readers_ok n s'" using fl by (simp add: s' readers_ok_def)
  moreover have "holder_ok n s'"
    by (rule holder_ok_moved [OF inv(3) inv(1) t w])
       (use only fl in \<open>simp_all add: s' needs_lock_def critical_def\<close>)
  moreover have "winner_ok n s'"
    by (rule winner_ok_moved [OF inv(4) inv(1) t w]) (simp_all add: s' critical_def)
  moreover have "phase_ok n s'"
    by (rule phase_ok_moved [OF inv(5) inv(1) t w]) (simp_all add: s' phase_at_def)
  moreover have "logs_ok n s'"
    by (rule logs_ok_moved [OF inv(6) inv(1) t w]) (use pc in \<open>simp_all add: s'\<close>)
  moreover have "exit_ok s'" using inv(7) by (simp add: s' exit_ok_def)
  ultimately show ?thesis by (simp add: threads_ok_def)
qed

lemma at_searching:
  assumes ok: "threads_ok n s" and t: "t < n" and st: "worker_step s t b = Some s'"
    and pc: "wpcs s ! t = Searching"
  shows "threads_ok n s'"
proof -
  from st pc have "s' = s\<lparr>rd_count := (rd_count s)[t := rd_count s ! t + 1],
      wpcs := (wpcs s)[t := Probing]\<rparr>"
    by (simp add: worker_step_def split: if_splits)
  then show ?thesis by (rule step_searching [OF ok t pc])
qed

lemma at_probing:
  assumes ok: "threads_ok n s" and t: "t < n" and st: "worker_step s t b = Some s'"
    and pc: "wpcs s ! t = Probing"
  shows "threads_ok n s'"
proof (cases "flag s")
  case True
  with st pc have "s' = s\<lparr>wpcs := (wpcs s)[t := WantWrite]\<rparr>"
    by (simp add: worker_step_def)
  then show ?thesis by (rule step_probing_set [OF ok t pc True])
next
  case False
  show ?thesis
  proof (cases b)
    case True
    with st pc False have "s' = s\<lparr>rd_count := (rd_count s)[t := rd_count s ! t - 1],
        wpcs := (wpcs s)[t := Searching]\<rparr>"
      by (simp add: worker_step_def)
    then show ?thesis by (rule step_probing_goes_on [OF ok t pc False])
  next
    case nb: False
    with st pc False have "s' = s\<lparr>rd_count := (rd_count s)[t := rd_count s ! t - 1],
        wpcs := (wpcs s)[t := WantWrite]\<rparr>"
      by (simp add: worker_step_def)
    then show ?thesis by (rule step_probing_returns [OF ok t pc False])
  qed
qed

lemma at_wantwrite:
  assumes ok: "threads_ok n s" and t: "t < n" and st: "worker_step s t b = Some s'"
    and pc: "wpcs s ! t = WantWrite"
  shows "threads_ok n s'"
proof (cases "wr_owner s = None \<and> list_all (\<lambda>n. n = 0) (rd_count s)")
  case True
  with st pc have "s' = s\<lparr>wr_owner := Some t, wpcs := (wpcs s)[t := Holding]\<rparr>"
    by (simp add: worker_step_def)
  moreover from True have "wr_owner s = None" by simp
  ultimately show ?thesis by (intro step_acquired [OF ok t pc])
next
  case False
  with st pc have held: "0 < rd_count s ! t"
    and "s' = s\<lparr>wpcs := (wpcs s)[t := Holding]\<rparr>"
    by (simp_all add: worker_step_def split: if_splits)
  then show ?thesis by (intro step_refused [OF ok t pc])
qed

lemma at_holding:
  assumes ok: "threads_ok n s" and t: "t < n" and st: "worker_step s t b = Some s'"
    and pc: "wpcs s ! t = Holding"
  shows "threads_ok n s'"
proof (cases "flag s")
  case True
  with st pc have "s' = s\<lparr>wpcs := (wpcs s)[t := Returned]\<rparr>"
    by (simp add: worker_step_def)
  then show ?thesis by (rule step_holding_set [OF ok t pc True])
next
  case False
  with st pc have "s' = s\<lparr>wpcs := (wpcs s)[t := Winning], winners := winners s @ [t]\<rparr>"
    by (simp add: worker_step_def)
  then show ?thesis by (rule step_holding_clear [OF ok t pc False])
qed

lemma at_winning:
  assumes ok: "threads_ok n s" and t: "t < n" and st: "worker_step s t b = Some s'"
    and pc: "wpcs s ! t = Winning"
  shows "threads_ok n s'"
proof -
  from st pc have "s' = s\<lparr>mtx := Some (Worker t), wpcs := (wpcs s)[t := InMutex]\<rparr>"
    by (simp add: worker_step_def split: if_splits)
  then show ?thesis by (rule step_winning [OF ok t pc])
qed

lemma at_inmutex:
  assumes ok: "threads_ok n s" and t: "t < n" and st: "worker_step s t b = Some s'"
    and pc: "wpcs s ! t = InMutex"
  shows "threads_ok n s'"
proof -
  from st pc have "s' = s\<lparr>flag := True,
      setters := (if flag s then setters s else setters s @ [t]),
      wpcs := (wpcs s)[t := Flagged]\<rparr>"
    by (simp add: worker_step_def)
  then show ?thesis by (rule step_inmutex [OF ok t pc])
qed

lemma at_flagged:
  assumes ok: "threads_ok n s" and t: "t < n" and st: "worker_step s t b = Some s'"
    and pc: "wpcs s ! t = Flagged"
  shows "threads_ok n s'"
proof -
  from st pc have "s' = s\<lparr>mtx := None, wpcs := (wpcs s)[t := Reporting]\<rparr>"
    by (simp add: worker_step_def)
  then show ?thesis by (rule step_flagged [OF ok t pc])
qed

lemma at_reporting:
  assumes ok: "threads_ok n s" and t: "t < n" and st: "worker_step s t b = Some s'"
    and pc: "wpcs s ! t = Reporting"
  shows "threads_ok n s'"
proof -
  from st pc have "s' = s\<lparr>reporters := reporters s @ [t], wpcs := (wpcs s)[t := Reported]\<rparr>"
    by (simp add: worker_step_def)
  then show ?thesis by (rule step_reporting [OF ok t pc])
qed

lemma at_reported:
  assumes ok: "threads_ok n s" and t: "t < n" and st: "worker_step s t b = Some s'"
    and pc: "wpcs s ! t = Reported"
  shows "threads_ok n s'"
proof -
  from st pc have "s' = s\<lparr>wr_owner := None, wpcs := (wpcs s)[t := Signalling]\<rparr>"
    by (simp add: worker_step_def)
  then show ?thesis by (rule step_reported [OF ok t pc])
qed

lemma at_signalling:
  assumes ok: "threads_ok n s" and t: "t < n" and st: "worker_step s t b = Some s'"
    and pc: "wpcs s ! t = Signalling"
  shows "threads_ok n s'"
proof -
  from st pc have "s' = s\<lparr>wpcs := (wpcs s)[t := Returned]\<rparr>"
    by (simp add: worker_step_def)
  then show ?thesis by (rule step_signalling [OF ok t pc])
qed

lemma worker_step_ok:
  assumes ok: "threads_ok n s" and t: "t < n" and st: "worker_step s t b = Some s'"
  shows "threads_ok n s'"
proof (cases "wpcs s ! t")
  case Searching then show ?thesis by (rule at_searching [OF ok t st])
next
  case Probing then show ?thesis by (rule at_probing [OF ok t st])
next
  case WantWrite then show ?thesis by (rule at_wantwrite [OF ok t st])
next
  case Holding then show ?thesis by (rule at_holding [OF ok t st])
next
  case Winning then show ?thesis by (rule at_winning [OF ok t st])
next
  case InMutex then show ?thesis by (rule at_inmutex [OF ok t st])
next
  case Flagged then show ?thesis by (rule at_flagged [OF ok t st])
next
  case Reporting then show ?thesis by (rule at_reporting [OF ok t st])
next
  case Reported then show ?thesis by (rule at_reported [OF ok t st])
next
  case Signalling then show ?thesis by (rule at_signalling [OF ok t st])
next
  case Returned with st show ?thesis by (simp add: worker_step_def)
qed

lemma sys_step_cases:
  assumes "sys_step s a = Some s'"
  obtains (worker) t b where "a = WorkerStep t b" "t < length (wpcs s)" "worker_step s t b = Some s'"
      "mpc s \<noteq> MDone"
    | (main) "a = MainStep" "main_step s = Some s'" "mpc s \<noteq> MDone"
  using assms by (cases a) (auto simp: sys_step_def split: if_splits)

lemma sys_step_ok: "threads_ok n s \<Longrightarrow> sys_step s a = Some s' \<Longrightarrow> threads_ok n s'"
proof -
  assume ok: "threads_ok n s" and st: "sys_step s a = Some s'"
  from ok have len: "length (wpcs s) = n" by (simp add: threads_ok_def sizes_ok_def)
  from st show ?thesis
  proof (cases rule: sys_step_cases)
    case (worker t b)
    with len ok show ?thesis by (intro worker_step_ok [of n s t b s']) simp_all
  next
    case main
    with ok show ?thesis by (intro main_step_ok [of n s s'])
  qed
qed

lemma run_sched_ok: "threads_ok n s \<Longrightarrow> run_sched s sched = Some s' \<Longrightarrow> threads_ok n s'"
proof (induction sched arbitrary: s)
  case Nil
  then show ?case by simp
next
  case (Cons a sched)
  from Cons.prems(2) obtain s1 where s1: "sys_step s a = Some s1" "run_sched s1 sched = Some s'"
    by (auto split: option.splits)
  from Cons.IH [OF sys_step_ok [OF Cons.prems(1) s1(1)] s1(2)] show ?case .
qed

section \<open>The race: every run can be completed\<close>

text \<open>
  \<open>race_inv\<close> adds who holds the mutex and where the workers are before the flag is set. It
  holds in every state of every run; from any such state some schedule sets the flag, and
  from any state with the flag set some schedule lets \<open>main\<close> return. In these schedules a
  worker that holds a read lock releases it and its search returns; the schedule decides
  after which call of \<open>sudokuHelper\<close> the search returns, the search itself being finite.
\<close>

lemma race_inv_init: "race_inv n (init_sys n)"
  using threads_ok_init [of n]
  by (simp add: race_inv_def mutex_ok_def early_ok_def init_sys_def early_def in_mutex_def)

lemma mutex_ok_moved:
  assumes ok: "mutex_ok n s" and sz: "sizes_ok n s" and t: "t < n"
    and w: "wpcs s' = (wpcs s)[t := p']" and m: "mpc s' = mpc s"
    and same: "in_mutex p' = in_mutex (wpcs s ! t) \<Longrightarrow> mtx s' = mtx s"
    and enter: "in_mutex p' \<Longrightarrow> \<not> in_mutex (wpcs s ! t) \<Longrightarrow> mtx s = None \<and> mtx s' = Some (Worker t)"
    and leave: "\<not> in_mutex p' \<Longrightarrow> in_mutex (wpcs s ! t) \<Longrightarrow> mtx s' = None"
  shows "mutex_ok n s'"
proof -
  from sz t have len: "t < length (wpcs s)" by (simp add: sizes_ok_def)
  from ok have sup: "(mtx s = Some Supervisor) = (mpc s = MTest)"
    and wk: "\<And>u. (mtx s = Some (Worker u)) = (u < n \<and> in_mutex (wpcs s ! u))"
    by (simp_all add: mutex_ok_def)
  have other: "\<And>u. u \<noteq> t \<Longrightarrow> wpcs s' ! u = wpcs s ! u" by (simp add: w)
  have self: "wpcs s' ! t = p'" using len by (simp add: w)
  consider (same) "in_mutex p' = in_mutex (wpcs s ! t)"
    | (enter) "in_mutex p'" "\<not> in_mutex (wpcs s ! t)"
    | (leave) "\<not> in_mutex p'" "in_mutex (wpcs s ! t)" by blast
  then show ?thesis
  proof cases
    case same
    note eq = assms(6) [OF same]
    have "\<And>u. (mtx s' = Some (Worker u)) = (u < n \<and> in_mutex (wpcs s' ! u))"
    proof -
      fix u show "(mtx s' = Some (Worker u)) = (u < n \<and> in_mutex (wpcs s' ! u))"
        by (cases "u = t") (simp_all add: eq wk self other same)
    qed
    with sup show ?thesis by (simp add: mutex_ok_def eq m)
  next
    case enter
    note e = assms(7) [OF enter]
    have "\<And>u. (mtx s' = Some (Worker u)) = (u < n \<and> in_mutex (wpcs s' ! u))"
    proof -
      fix u show "(mtx s' = Some (Worker u)) = (u < n \<and> in_mutex (wpcs s' ! u))"
      proof (cases "u = t")
        case True with e t enter self show ?thesis by simp
      next
        case False
        with wk [of u] e other [of u] show ?thesis by simp
      qed
    qed
    moreover from sup e have "mpc s \<noteq> MTest" by simp
    ultimately show ?thesis using e by (simp add: mutex_ok_def m)
  next
    case leave
    note l = assms(8) [OF leave]
    from wk [of t] leave t have held: "mtx s = Some (Worker t)" by simp
    have "\<And>u. (mtx s' = Some (Worker u)) = (u < n \<and> in_mutex (wpcs s' ! u))"
    proof -
      fix u show "(mtx s' = Some (Worker u)) = (u < n \<and> in_mutex (wpcs s' ! u))"
      proof (cases "u = t")
        case True with l leave self show ?thesis by simp
      next
        case False
        with wk [of u] held other [of u] l show ?thesis by simp
      qed
    qed
    moreover from sup held have "mpc s \<noteq> MTest" by simp
    ultimately show ?thesis using l by (simp add: mutex_ok_def m)
  qed
qed

lemma early_ok_moved:
  assumes ok: "early_ok n s" and sz: "sizes_ok n s" and t: "t < n"
    and w: "wpcs s' = (wpcs s)[t := p']"
    and mono: "flag s \<Longrightarrow> flag s'"
    and A: "\<not> flag s' \<Longrightarrow> early p'"
    and B: "\<not> flag s' \<Longrightarrow> wr_owner s' = Some t \<Longrightarrow> writing p'"
    and C: "\<And>u. \<not> flag s' \<Longrightarrow> u \<noteq> t \<Longrightarrow> wr_owner s' = Some u \<Longrightarrow> wr_owner s = Some u"
  shows "early_ok n s'"
proof (cases "flag s'")
  case True
  then show ?thesis by (simp add: early_ok_def)
next
  case nf: False
  from sz t have len: "t < length (wpcs s)" by (simp add: sizes_ok_def)
  from nf mono have nf0: "\<not> flag s" by blast
  have a: "early (wpcs s' ! u)" if u: "u < n" for u
  proof (cases "u = t")
    case True with A [OF nf] len show ?thesis by (simp add: w)
  next
    case False with ok nf0 u show ?thesis by (simp add: early_ok_def w)
  qed
  have b: "u < n \<and> writing (wpcs s' ! u)" if o: "wr_owner s' = Some u" for u
  proof (cases "u = t")
    case True with B [OF nf] o t len show ?thesis by (simp add: w)
  next
    case False
    from C [OF nf False o] ok nf0 have "u < n \<and> writing (wpcs s ! u)"
      by (simp add: early_ok_def)
    with False show ?thesis by (simp add: w)
  qed
  from a b show ?thesis by (simp add: early_ok_def)
qed

lemma race_invD:
  assumes "race_inv n s"
  shows "threads_ok n s" "mutex_ok n s" "early_ok n s"
  using assms by (simp_all add: race_inv_def)

lemma race_inv_moved:
  assumes inv: "race_inv n s" and t: "t < n" and th: "threads_ok n s'"
    and w: "wpcs s' = (wpcs s)[t := p']" and m: "mpc s' = mpc s"
    and mono: "flag s \<Longrightarrow> flag s'"
    and same: "in_mutex p' = in_mutex (wpcs s ! t) \<Longrightarrow> mtx s' = mtx s"
    and enter: "in_mutex p' \<Longrightarrow> \<not> in_mutex (wpcs s ! t) \<Longrightarrow> mtx s = None \<and> mtx s' = Some (Worker t)"
    and leave: "\<not> in_mutex p' \<Longrightarrow> in_mutex (wpcs s ! t) \<Longrightarrow> mtx s' = None"
    and A: "\<not> flag s' \<Longrightarrow> early p'"
    and D: "\<not> flag s' \<Longrightarrow> (wr_owner s' = wr_owner s \<and> writing p' = writing (wpcs s ! t)) \<or>
              (wr_owner s' = Some t \<and> writing p')"
  shows "race_inv n s'"
proof -
  note i = race_invD [OF inv]
  from i(1) have sz: "sizes_ok n s" by (simp add: threads_ok_def)
  have "mutex_ok n s'" by (rule mutex_ok_moved [OF i(2) sz t w m same enter leave])
  moreover have "early_ok n s'"
  proof (rule early_ok_moved [OF i(3) sz t w mono A])
    assume nf: "\<not> flag s'" and o: "wr_owner s' = Some t"
    from nf mono have nf0: "\<not> flag s" by blast
    from D [OF nf] show "writing p'"
    proof
      assume "wr_owner s' = wr_owner s \<and> writing p' = writing (wpcs s ! t)"
      with o i(3) nf0 show ?thesis by (simp add: early_ok_def)
    qed simp
  next
    fix u assume nf: "\<not> flag s'" and u: "u \<noteq> t" and o: "wr_owner s' = Some u"
    from D [OF nf] u o show "wr_owner s = Some u" by auto
  qed
  ultimately show ?thesis using th by (simp add: race_inv_def)
qed

lemma early_or_flag: "race_inv n s \<Longrightarrow> t < n \<Longrightarrow> early (wpcs s ! t) \<or> flag s"
  by (auto simp: race_inv_def early_ok_def)

lemma inv_searching:
  assumes inv: "race_inv n s" and t: "t < n" and st: "worker_step s t b = Some s'"
    and pc: "wpcs s ! t = Searching"
  shows "race_inv n s'"
proof -
  note ok = race_invD(1) [OF inv]
  note th = at_searching [OF ok t st pc]
  note tf = thread_facts [OF ok t]
  note ef = early_or_flag [OF inv t]
  from st pc have s': "s' = s\<lparr>rd_count := (rd_count s)[t := rd_count s ! t + 1], wpcs := (wpcs s)[t := Probing]\<rparr>"
    by (simp_all add: worker_step_def split: if_splits)
  show ?thesis
  proof (rule race_inv_moved [OF inv t th])
    show "wpcs s' = (wpcs s)[t := Probing]" by (simp add: s')
  qed (use pc ef tf(3)  in \<open>simp_all add: s' in_mutex_def early_def writing_def split: if_splits\<close>)
qed

lemma inv_probing:
  assumes inv: "race_inv n s" and t: "t < n" and st: "worker_step s t b = Some s'"
    and pc: "wpcs s ! t = Probing"
  shows "race_inv n s'"
proof -
  note ok = race_invD(1) [OF inv]
  note th = at_probing [OF ok t st pc]
  note tf = thread_facts [OF ok t]
  note ef = early_or_flag [OF inv t]
  show ?thesis
  proof (cases "flag s")
    case c: True
    from st pc c have s': "s' = s\<lparr>wpcs := (wpcs s)[t := WantWrite]\<rparr>"
      by (simp_all add: worker_step_def split: if_splits)
    show ?thesis
    proof (rule race_inv_moved [OF inv t th])
      show "wpcs s' = (wpcs s)[t := WantWrite]" by (simp add: s')
    qed (use pc ef tf(3) c in \<open>simp_all add: s' in_mutex_def early_def writing_def split: if_splits\<close>)
  next
    case c: False
    from st pc c have s': "s' = s\<lparr>rd_count := (rd_count s)[t := rd_count s ! t - 1], wpcs := (wpcs s)[t := (if b then Searching else WantWrite)]\<rparr>"
      by (simp_all add: worker_step_def split: if_splits)
    show ?thesis
    proof (rule race_inv_moved [OF inv t th])
      show "wpcs s' = (wpcs s)[t := if b then Searching else WantWrite]" by (simp add: s')
    qed (use pc ef tf(3) c in \<open>simp_all add: s' in_mutex_def early_def writing_def split: if_splits\<close>)
  qed
qed

lemma inv_wantwrite:
  assumes inv: "race_inv n s" and t: "t < n" and st: "worker_step s t b = Some s'"
    and pc: "wpcs s ! t = WantWrite"
  shows "race_inv n s'"
proof -
  note ok = race_invD(1) [OF inv]
  note th = at_wantwrite [OF ok t st pc]
  note tf = thread_facts [OF ok t]
  note ef = early_or_flag [OF inv t]
  show ?thesis
  proof (cases "wr_owner s = None \<and> list_all (\<lambda>n. n = 0) (rd_count s)")
    case c: True
    from st pc c have s': "s' = s\<lparr>wr_owner := Some t, wpcs := (wpcs s)[t := Holding]\<rparr>"
      by (simp_all add: worker_step_def split: if_splits)
    show ?thesis
    proof (rule race_inv_moved [OF inv t th])
      show "wpcs s' = (wpcs s)[t := Holding]" by (simp add: s')
    qed (use pc ef tf(3) c in \<open>simp_all add: s' in_mutex_def early_def writing_def split: if_splits\<close>)
  next
    case c: False
    from st pc c have s': "s' = s\<lparr>wpcs := (wpcs s)[t := Holding]\<rparr>" and held: "0 < rd_count s ! t"
      by (simp_all add: worker_step_def split: if_splits)
    show ?thesis
    proof (rule race_inv_moved [OF inv t th])
      show "wpcs s' = (wpcs s)[t := Holding]" by (simp add: s')
    qed (use pc ef tf(3) c held in \<open>simp_all add: s' in_mutex_def early_def writing_def split: if_splits\<close>)
  qed
qed

lemma inv_holding:
  assumes inv: "race_inv n s" and t: "t < n" and st: "worker_step s t b = Some s'"
    and pc: "wpcs s ! t = Holding"
  shows "race_inv n s'"
proof -
  note ok = race_invD(1) [OF inv]
  note th = at_holding [OF ok t st pc]
  note tf = thread_facts [OF ok t]
  note ef = early_or_flag [OF inv t]
  show ?thesis
  proof (cases "flag s")
    case c: True
    from st pc c have s': "s' = s\<lparr>wpcs := (wpcs s)[t := Returned]\<rparr>"
      by (simp_all add: worker_step_def split: if_splits)
    show ?thesis
    proof (rule race_inv_moved [OF inv t th])
      show "wpcs s' = (wpcs s)[t := Returned]" by (simp add: s')
    qed (use pc ef tf(3) c in \<open>simp_all add: s' in_mutex_def early_def writing_def split: if_splits\<close>)
  next
    case c: False
    from st pc c have s': "s' = s\<lparr>wpcs := (wpcs s)[t := Winning], winners := winners s @ [t]\<rparr>"
      by (simp_all add: worker_step_def split: if_splits)
    show ?thesis
    proof (rule race_inv_moved [OF inv t th])
      show "wpcs s' = (wpcs s)[t := Winning]" by (simp add: s')
    qed (use pc ef tf(3) c in \<open>simp_all add: s' in_mutex_def early_def writing_def split: if_splits\<close>)
  qed
qed

lemma inv_winning:
  assumes inv: "race_inv n s" and t: "t < n" and st: "worker_step s t b = Some s'"
    and pc: "wpcs s ! t = Winning"
  shows "race_inv n s'"
proof -
  note ok = race_invD(1) [OF inv]
  note th = at_winning [OF ok t st pc]
  note tf = thread_facts [OF ok t]
  note ef = early_or_flag [OF inv t]
  from st pc have s': "s' = s\<lparr>mtx := Some (Worker t), wpcs := (wpcs s)[t := InMutex]\<rparr>" and free: "mtx s = None"
    by (simp_all add: worker_step_def split: if_splits)
  show ?thesis
  proof (rule race_inv_moved [OF inv t th])
    show "wpcs s' = (wpcs s)[t := InMutex]" by (simp add: s')
  qed (use pc ef tf(3) free in \<open>simp_all add: s' in_mutex_def early_def writing_def split: if_splits\<close>)
qed

lemma inv_inmutex:
  assumes inv: "race_inv n s" and t: "t < n" and st: "worker_step s t b = Some s'"
    and pc: "wpcs s ! t = InMutex"
  shows "race_inv n s'"
proof -
  note ok = race_invD(1) [OF inv]
  note th = at_inmutex [OF ok t st pc]
  note tf = thread_facts [OF ok t]
  note ef = early_or_flag [OF inv t]
  from st pc have s': "s' = s\<lparr>flag := True, setters := (if flag s then setters s else setters s @ [t]), wpcs := (wpcs s)[t := Flagged]\<rparr>"
    by (simp_all add: worker_step_def split: if_splits)
  show ?thesis
  proof (rule race_inv_moved [OF inv t th])
    show "wpcs s' = (wpcs s)[t := Flagged]" by (simp add: s')
  qed (use pc ef tf(3)  in \<open>simp_all add: s' in_mutex_def early_def writing_def split: if_splits\<close>)
qed

lemma inv_flagged:
  assumes inv: "race_inv n s" and t: "t < n" and st: "worker_step s t b = Some s'"
    and pc: "wpcs s ! t = Flagged"
  shows "race_inv n s'"
proof -
  note ok = race_invD(1) [OF inv]
  note th = at_flagged [OF ok t st pc]
  note tf = thread_facts [OF ok t]
  note ef = early_or_flag [OF inv t]
  from st pc have s': "s' = s\<lparr>mtx := None, wpcs := (wpcs s)[t := Reporting]\<rparr>"
    by (simp_all add: worker_step_def split: if_splits)
  show ?thesis
  proof (rule race_inv_moved [OF inv t th])
    show "wpcs s' = (wpcs s)[t := Reporting]" by (simp add: s')
  qed (use pc ef tf(3)  in \<open>simp_all add: s' in_mutex_def early_def writing_def split: if_splits\<close>)
qed

lemma inv_reporting:
  assumes inv: "race_inv n s" and t: "t < n" and st: "worker_step s t b = Some s'"
    and pc: "wpcs s ! t = Reporting"
  shows "race_inv n s'"
proof -
  note ok = race_invD(1) [OF inv]
  note th = at_reporting [OF ok t st pc]
  note tf = thread_facts [OF ok t]
  note ef = early_or_flag [OF inv t]
  from st pc have s': "s' = s\<lparr>reporters := reporters s @ [t], wpcs := (wpcs s)[t := Reported]\<rparr>"
    by (simp_all add: worker_step_def split: if_splits)
  show ?thesis
  proof (rule race_inv_moved [OF inv t th])
    show "wpcs s' = (wpcs s)[t := Reported]" by (simp add: s')
  qed (use pc ef tf(3)  in \<open>simp_all add: s' in_mutex_def early_def writing_def split: if_splits\<close>)
qed

lemma inv_reported:
  assumes inv: "race_inv n s" and t: "t < n" and st: "worker_step s t b = Some s'"
    and pc: "wpcs s ! t = Reported"
  shows "race_inv n s'"
proof -
  note ok = race_invD(1) [OF inv]
  note th = at_reported [OF ok t st pc]
  note tf = thread_facts [OF ok t]
  note ef = early_or_flag [OF inv t]
  from st pc have s': "s' = s\<lparr>wr_owner := None, wpcs := (wpcs s)[t := Signalling]\<rparr>"
    by (simp_all add: worker_step_def split: if_splits)
  show ?thesis
  proof (rule race_inv_moved [OF inv t th])
    show "wpcs s' = (wpcs s)[t := Signalling]" by (simp add: s')
  qed (use pc ef tf(3)  in \<open>simp_all add: s' in_mutex_def early_def writing_def split: if_splits\<close>)
qed

lemma inv_signalling:
  assumes inv: "race_inv n s" and t: "t < n" and st: "worker_step s t b = Some s'"
    and pc: "wpcs s ! t = Signalling"
  shows "race_inv n s'"
proof -
  note ok = race_invD(1) [OF inv]
  note th = at_signalling [OF ok t st pc]
  note tf = thread_facts [OF ok t]
  note ef = early_or_flag [OF inv t]
  from st pc have s': "s' = s\<lparr>wpcs := (wpcs s)[t := Returned]\<rparr>"
    by (simp_all add: worker_step_def split: if_splits)
  show ?thesis
  proof (rule race_inv_moved [OF inv t th])
    show "wpcs s' = (wpcs s)[t := Returned]" by (simp add: s')
  qed (use pc ef tf(3)  in \<open>simp_all add: s' in_mutex_def early_def writing_def split: if_splits\<close>)
qed

lemma worker_step_inv:
  assumes inv: "race_inv n s" and t: "t < n" and st: "worker_step s t b = Some s'"
  shows "race_inv n s'"
proof (cases "wpcs s ! t")
  case Searching then show ?thesis by (rule inv_searching [OF inv t st])
next
  case Probing then show ?thesis by (rule inv_probing [OF inv t st])
next
  case WantWrite then show ?thesis by (rule inv_wantwrite [OF inv t st])
next
  case Holding then show ?thesis by (rule inv_holding [OF inv t st])
next
  case Winning then show ?thesis by (rule inv_winning [OF inv t st])
next
  case InMutex then show ?thesis by (rule inv_inmutex [OF inv t st])
next
  case Flagged then show ?thesis by (rule inv_flagged [OF inv t st])
next
  case Reporting then show ?thesis by (rule inv_reporting [OF inv t st])
next
  case Reported then show ?thesis by (rule inv_reported [OF inv t st])
next
  case Signalling then show ?thesis by (rule inv_signalling [OF inv t st])
next
  case Returned with st show ?thesis by (simp add: worker_step_def)
qed

lemma main_step_inv:
  assumes inv: "race_inv n s" and st: "main_step s = Some s'"
  shows "race_inv n s'"
proof -
  note i = race_invD [OF inv]
  note fr = main_step_frame [OF st]
  have th: "threads_ok n s'" by (rule main_step_ok [OF i(1) st])
  have ea: "early_ok n s'" using i(3) by (simp add: early_ok_def fr)
  from i(2) have sup: "(mtx s = Some Supervisor) = (mpc s = MTest)"
    and wk: "\<And>u. (mtx s = Some (Worker u)) = (u < n \<and> in_mutex (wpcs s ! u))"
    by (simp_all add: mutex_ok_def)
  from st consider (lock) "mtx s = None" "mpc s \<noteq> MTest" "mtx s' = Some Supervisor" "mpc s' = MTest"
    | (unlock) "mpc s = MTest" "mtx s' = None" "mpc s' \<noteq> MTest"
    by (auto simp: main_step_def split: mpc.splits if_splits)
  then have "mutex_ok n s'"
  proof cases
    case lock
    with wk show ?thesis by (simp add: mutex_ok_def fr)
  next
    case unlock
    with sup have "mtx s = Some Supervisor" by simp
    with wk unlock show ?thesis by (simp add: mutex_ok_def fr)
  qed
  with th ea show ?thesis by (simp add: race_inv_def)
qed

lemma sys_step_inv: "race_inv n s \<Longrightarrow> sys_step s a = Some s' \<Longrightarrow> race_inv n s'"
proof -
  assume inv: "race_inv n s" and st: "sys_step s a = Some s'"
  from inv have len: "length (wpcs s) = n"
    by (simp add: race_inv_def threads_ok_def sizes_ok_def)
  from st show ?thesis
  proof (cases rule: sys_step_cases)
    case (worker t b)
    with len inv show ?thesis by (intro worker_step_inv [of n s t b s']) simp_all
  next
    case main
    with inv show ?thesis by (intro main_step_inv [of n s s'])
  qed
qed

lemma run_sched_inv: "race_inv n s \<Longrightarrow> run_sched s sched = Some s' \<Longrightarrow> race_inv n s'"
proof (induction sched arbitrary: s)
  case Nil
  then show ?case by simp
next
  case (Cons a sched)
  from Cons.prems(2) obtain s1 where s1: "sys_step s a = Some s1" "run_sched s1 sched = Some s'"
    by (auto split: option.splits)
  from Cons.IH [OF sys_step_inv [OF Cons.prems(1) s1(1)] s1(2)] show ?case .
qed

lemma run_sched_append:
  "run_sched s (xs @ ys) = (case run_sched s xs of None \<Rightarrow> None | Some s1 \<Rightarrow> run_sched s1 ys)"
  by (induction xs arbitrary: s) (simp_all split: option.splits)

lemma reach_refl: "reach s s"
  unfolding reach_def by (rule exI [of _ "[]"]) simp

lemma reach_step: "sys_step s a = Some s1 \<Longrightarrow> reach s1 s' \<Longrightarrow> reach s s'"
  unfolding reach_def
proof -
  assume st: "sys_step s a = Some s1" and "\<exists>sched. run_sched s1 sched = Some s'"
  then obtain sched where "run_sched s1 sched = Some s'" by blast
  with st have "run_sched s (a # sched) = Some s'" by simp
  then show "\<exists>sched. run_sched s sched = Some s'" by blast
qed

lemma reach_trans: "reach s s1 \<Longrightarrow> reach s1 s' \<Longrightarrow> reach s s'"
  unfolding reach_def
proof -
  assume "\<exists>sched. run_sched s sched = Some s1" and "\<exists>sched. run_sched s1 sched = Some s'"
  then obtain xs ys where "run_sched s xs = Some s1" "run_sched s1 ys = Some s'" by blast
  then have "run_sched s (xs @ ys) = Some s'" by (simp add: run_sched_append)
  then show "\<exists>sched. run_sched s sched = Some s'" by blast
qed

lemma reach_inv: "race_inv n s \<Longrightarrow> reach s s' \<Longrightarrow> race_inv n s'"
  unfolding reach_def using run_sched_inv by blast

lemma worker_moves:
  assumes inv: "race_inv n s" and t: "t < n" and run: "mpc s \<noteq> MDone"
    and st: "worker_step s t b = Some s1"
  shows "sys_step s (WorkerStep t b) = Some s1" "race_inv n s1"
proof -
  from inv have len: "length (wpcs s) = n"
    by (simp add: race_inv_def threads_ok_def sizes_ok_def)
  with t run st show "sys_step s (WorkerStep t b) = Some s1" by (simp add: sys_step_def)
  from worker_step_inv [OF inv t st] show "race_inv n s1" .
qed

lemma running: "race_inv n s \<Longrightarrow> \<not> flag s \<Longrightarrow> mpc s \<noteq> MDone"
  by (auto simp: race_inv_def threads_ok_def exit_ok_def)

lemma finish_from_test:
  assumes "flag s" "mpc s = MTest"
  shows "\<exists>s'. reach s s' \<and> mpc s' = MDone"
proof -
  let ?s1 = "s\<lparr>mtx := None, mpc := MDone\<rparr>"
  from assms have "sys_step s MainStep = Some ?s1" by (simp add: sys_step_def main_step_def)
  from reach_step [OF this reach_refl] show ?thesis by (intro exI [of _ ?s1]) simp
qed

lemma finish_from_free:
  assumes fl: "flag s" and free: "mtx s = None" and m: "mpc s = MStart \<or> mpc s = MWaiting"
  shows "\<exists>s'. reach s s' \<and> mpc s' = MDone"
proof -
  let ?s1 = "s\<lparr>mtx := Some Supervisor, mpc := MTest\<rparr>"
  from free m have st: "sys_step s MainStep = Some ?s1"
    by (auto simp: sys_step_def main_step_def)
  from fl have "\<exists>s'. reach ?s1 s' \<and> mpc s' = MDone" by (intro finish_from_test) simp_all
  then obtain s' where "reach ?s1 s'" "mpc s' = MDone" by blast
  with reach_step [OF st] show ?thesis by blast
qed

lemma finish_not_testing:
  assumes inv: "race_inv n s" and fl: "flag s" and m: "mpc s = MStart \<or> mpc s = MWaiting"
  shows "\<exists>s'. reach s s' \<and> mpc s' = MDone"
proof (cases "mtx s")
  case None
  with fl m show ?thesis by (intro finish_from_free)
next
  case (Some who)
  note i = race_invD [OF inv]
  from i(2) have sup: "(mtx s = Some Supervisor) = (mpc s = MTest)"
    and wk: "\<And>u. (mtx s = Some (Worker u)) = (u < n \<and> in_mutex (wpcs s ! u))"
    by (simp_all add: mutex_ok_def)
  show ?thesis
  proof (cases who)
    case Supervisor
    with Some sup m show ?thesis by auto
  next
    case (Worker t)
    with Some wk [of t] have t: "t < n" and im: "in_mutex (wpcs s ! t)" by simp_all
    from thread_facts(6) [OF i(1) t] fl im have pc: "wpcs s ! t = Flagged"
      by (auto simp: phase_at_def in_mutex_def)
    let ?s1 = "s\<lparr>mtx := None, wpcs := (wpcs s)[t := Reporting]\<rparr>"
    from pc have ws: "worker_step s t False = Some ?s1" by (simp add: worker_step_def)
    from m have run: "mpc s \<noteq> MDone" by auto
    note st = worker_moves(1) [OF inv t run ws]
    from fl m have "\<exists>s'. reach ?s1 s' \<and> mpc s' = MDone" by (intro finish_from_free) simp_all
    then obtain s' where "reach ?s1 s'" "mpc s' = MDone" by blast
    with reach_step [OF st] show ?thesis by blast
  qed
qed

lemma finish_from_flag:
  assumes inv: "race_inv n s" and fl: "flag s"
  shows "\<exists>s'. reach s s' \<and> mpc s' = MDone"
proof (cases "mpc s")
  case MDone
  with reach_refl [of s] show ?thesis by blast
next
  case MTest
  with fl show ?thesis by (rule finish_from_test)
next
  case MStart
  then show ?thesis by (intro finish_not_testing [OF inv fl]) simp
next
  case MWaiting
  then show ?thesis by (intro finish_not_testing [OF inv fl]) simp
qed

lemma set_at_inmutex:
  assumes inv: "race_inv n s" and t: "t < n" and pc: "wpcs s ! t = InMutex" and nf: "\<not> flag s"
  shows "\<exists>s1. reach s s1 \<and> flag s1"
proof -
  let ?s1 = "s\<lparr>flag := True, setters := (if flag s then setters s else setters s @ [t]),
                wpcs := (wpcs s)[t := Flagged]\<rparr>"
  from pc have ws: "worker_step s t False = Some ?s1" by (simp add: worker_step_def)
  note st = worker_moves(1) [OF inv t running [OF inv nf] ws]
  from reach_step [OF st reach_refl] show ?thesis by (intro exI [of _ ?s1]) simp
qed

lemma set_at_winning_free:
  assumes inv: "race_inv n s" and t: "t < n" and pc: "wpcs s ! t = Winning" and nf: "\<not> flag s"
    and free: "mtx s = None"
  shows "\<exists>s1. reach s s1 \<and> flag s1"
proof -
  let ?s1 = "s\<lparr>mtx := Some (Worker t), wpcs := (wpcs s)[t := InMutex]\<rparr>"
  from pc free have ws: "worker_step s t False = Some ?s1" by (simp add: worker_step_def)
  note st = worker_moves [OF inv t running [OF inv nf] ws]
  from thread_facts(1) [OF race_invD(1) [OF inv] t] t have "wpcs ?s1 ! t = InMutex" by simp
  from set_at_inmutex [OF st(2) t this] nf obtain s2 where "reach ?s1 s2" "flag s2" by auto
  with reach_step [OF st(1)] show ?thesis by blast
qed

lemma set_at_winning:
  assumes inv: "race_inv n s" and t: "t < n" and pc: "wpcs s ! t = Winning" and nf: "\<not> flag s"
  shows "\<exists>s1. reach s s1 \<and> flag s1"
proof (cases "mtx s")
  case None
  then show ?thesis by (rule set_at_winning_free [OF inv t pc nf])
next
  case (Some who)
  note i = race_invD [OF inv]
  from i(2) have sup: "(mtx s = Some Supervisor) = (mpc s = MTest)"
    and wk: "\<And>u. (mtx s = Some (Worker u)) = (u < n \<and> in_mutex (wpcs s ! u))"
    by (simp_all add: mutex_ok_def)
  show ?thesis
  proof (cases who)
    case Supervisor
    with Some sup have m: "mpc s = MTest" by simp
    let ?s1 = "s\<lparr>mtx := None, mpc := MWaiting\<rparr>"
    from m nf have st: "sys_step s MainStep = Some ?s1"
      by (simp add: sys_step_def main_step_def)
    note inv1 = sys_step_inv [OF inv st]
    from pc nf have "\<exists>s2. reach ?s1 s2 \<and> flag s2"
      by (intro set_at_winning_free [OF inv1 t]) simp_all
    then obtain s2 where "reach ?s1 s2" "flag s2" by blast
    with reach_step [OF st] show ?thesis by blast
  next
    case (Worker u)
    with Some wk [of u] have u: "u < n" and im: "in_mutex (wpcs s ! u)" by simp_all
    from thread_facts(6) [OF i(1) u] nf im have "wpcs s ! u = InMutex"
      by (auto simp: phase_at_def in_mutex_def)
    from set_at_inmutex [OF inv u this nf] show ?thesis .
  qed
qed

lemma set_at_holding:
  assumes inv: "race_inv n s" and t: "t < n" and pc: "wpcs s ! t = Holding" and nf: "\<not> flag s"
  shows "\<exists>s1. reach s s1 \<and> flag s1"
proof -
  let ?s1 = "s\<lparr>wpcs := (wpcs s)[t := Winning], winners := winners s @ [t]\<rparr>"
  from pc nf have ws: "worker_step s t False = Some ?s1" by (simp add: worker_step_def)
  note st = worker_moves [OF inv t running [OF inv nf] ws]
  from thread_facts(1) [OF race_invD(1) [OF inv] t] t have "wpcs ?s1 ! t = Winning" by simp
  from set_at_winning [OF st(2) t this] nf obtain s2 where "reach ?s1 s2" "flag s2" by auto
  with reach_step [OF st(1)] show ?thesis by blast
qed

lemma set_at_wantwrite:
  assumes inv: "race_inv n s" and t: "t < n" and pc: "wpcs s ! t = WantWrite" and nf: "\<not> flag s"
    and free: "wr_owner s = None" "list_all (\<lambda>n. n = 0) (rd_count s)"
  shows "\<exists>s1. reach s s1 \<and> flag s1"
proof -
  let ?s1 = "s\<lparr>wr_owner := Some t, wpcs := (wpcs s)[t := Holding]\<rparr>"
  from pc free have ws: "worker_step s t False = Some ?s1" by (simp add: worker_step_def)
  note st = worker_moves [OF inv t running [OF inv nf] ws]
  from thread_facts(1) [OF race_invD(1) [OF inv] t] t have "wpcs ?s1 ! t = Holding" by simp
  from set_at_holding [OF st(2) t this] nf obtain s2 where "reach ?s1 s2" "flag s2" by auto
  with reach_step [OF st(1)] show ?thesis by blast
qed

lemma lock_is_free:
  assumes inv: "race_inv n s" and nf: "\<not> flag s" and un: "\<forall>u<n. unlocked (wpcs s ! u)"
  shows "wr_owner s = None" "list_all (\<lambda>n. n = 0) (rd_count s)"
proof -
  note i = race_invD [OF inv]
  show "wr_owner s = None"
  proof (cases "wr_owner s")
    case (Some u)
    with i(3) nf have "u < n \<and> writing (wpcs s ! u)" by (simp add: early_ok_def)
    with un show ?thesis by (auto simp: unlocked_def writing_def)
  qed simp
  from i(1) have len: "length (rd_count s) = n" by (simp add: threads_ok_def sizes_ok_def)
  have "rd_count s ! u = 0" if u: "u < n" for u
    using thread_facts(3) [OF i(1) u nf] un u by (auto simp: unlocked_def)
  with len show "list_all (\<lambda>n. n = 0) (rd_count s)" by (simp add: list_all_length)
qed

lemma set_when_unlocked:
  assumes inv: "race_inv n s" and nf: "\<not> flag s" and un: "\<forall>u<n. unlocked (wpcs s ! u)"
    and t: "t < n" and pc: "wpcs s ! t = WantWrite"
  shows "\<exists>s1. reach s s1 \<and> flag s1"
  by (rule set_at_wantwrite [OF inv t pc nf lock_is_free [OF inv nf un]])

lemma set_when_all_search:
  assumes inv: "race_inv n s" and nf: "\<not> flag s" and un: "\<forall>u<n. unlocked (wpcs s ! u)"
    and t: "t < n" and pc: "wpcs s ! t = Searching"
  shows "\<exists>s1. reach s s1 \<and> flag s1"
proof -
  note len = thread_facts(1) [OF race_invD(1) [OF inv] t]
  let ?s1 = "s\<lparr>rd_count := (rd_count s)[t := rd_count s ! t + 1],
                wpcs := (wpcs s)[t := Probing]\<rparr>"
  let ?s2 = "?s1\<lparr>rd_count := (rd_count ?s1)[t := rd_count ?s1 ! t - 1],
                  wpcs := (wpcs ?s1)[t := WantWrite]\<rparr>"
  from pc lock_is_free(1) [OF inv nf un] have ws1: "worker_step s t False = Some ?s1"
    by (simp add: worker_step_def)
  note st1 = worker_moves [OF inv t running [OF inv nf] ws1]
  from nf have nf1: "\<not> flag ?s1" by simp
  from len t nf have ws2: "worker_step ?s1 t False = Some ?s2"
    by (simp add: worker_step_def)
  note st2 = worker_moves [OF st1(2) t running [OF st1(2) nf1] ws2]
  from nf have nf2: "\<not> flag ?s2" by simp
  have un2: "\<forall>u<n. unlocked (wpcs ?s2 ! u)"
  proof (intro allI impI)
    fix u assume u: "u < n"
    show "unlocked (wpcs ?s2 ! u)"
    proof (cases "u = t")
      case True with len t show ?thesis by (simp add: unlocked_def)
    next
      case False with un u show ?thesis by simp
    qed
  qed
  from len t have pc2: "wpcs ?s2 ! t = WantWrite" by simp
  from set_when_unlocked [OF st2(2) nf2 un2 t pc2] obtain s3
    where "reach ?s2 s3" "flag s3" by blast
  with reach_step [OF st1(1) reach_step [OF st2(1)]] show ?thesis by blast
qed

lemma release_readers:
  assumes inv: "race_inv n s" and nf: "\<not> flag s" and se: "\<forall>u<n. searching (wpcs s ! u)"
    and k: "k \<le> n"
  shows "\<exists>s1. reach s s1 \<and> race_inv n s1 \<and> \<not> flag s1 \<and> (\<forall>u<n. searching (wpcs s1 ! u)) \<and>
           (\<forall>u<k. unlocked (wpcs s1 ! u))"
  using k
proof (induction k)
  case 0
  from reach_refl [of s] inv nf se show ?case by (intro exI [of _ s]) simp
next
  case (Suc k)
  then obtain s1 where r: "reach s s1" and inv1: "race_inv n s1" and nf1: "\<not> flag s1"
    and se1: "\<forall>u<n. searching (wpcs s1 ! u)" and un1: "\<forall>u<k. unlocked (wpcs s1 ! u)"
    by auto
  from Suc.prems have k: "k < n" by simp
  note len = thread_facts(1) [OF race_invD(1) [OF inv1] k]
  show ?case
  proof (cases "wpcs s1 ! k = Probing")
    case False
    with se1 k have "unlocked (wpcs s1 ! k)" by (auto simp: searching_def unlocked_def)
    with un1 have "\<forall>u<Suc k. unlocked (wpcs s1 ! u)" by (simp add: less_Suc_eq)
    with r inv1 nf1 se1 show ?thesis by blast
  next
    case True
    let ?s2 = "s1\<lparr>rd_count := (rd_count s1)[k := rd_count s1 ! k - 1],
                   wpcs := (wpcs s1)[k := WantWrite]\<rparr>"
    from True nf1 have ws: "worker_step s1 k False = Some ?s2" by (simp add: worker_step_def)
    note st = worker_moves [OF inv1 k running [OF inv1 nf1] ws]
    have r2: "reach s ?s2" by (rule reach_trans [OF r reach_step [OF st(1) reach_refl]])
    from nf1 have nf2: "\<not> flag ?s2" by simp
    have se2: "\<forall>u<n. searching (wpcs ?s2 ! u)"
    proof (intro allI impI)
      fix u assume u: "u < n"
      show "searching (wpcs ?s2 ! u)"
      proof (cases "u = k")
        case True with len k show ?thesis by (simp add: searching_def)
      next
        case False with se1 u show ?thesis by simp
      qed
    qed
    have un2: "\<forall>u<Suc k. unlocked (wpcs ?s2 ! u)"
    proof (intro allI impI)
      fix u assume u: "u < Suc k"
      show "unlocked (wpcs ?s2 ! u)"
      proof (cases "u = k")
        case True with len k show ?thesis by (simp add: unlocked_def)
      next
        case False with un1 u show ?thesis by simp
      qed
    qed
    from r2 st(2) nf2 se2 un2 show ?thesis by blast
  qed
qed

lemma set_when_searching:
  assumes inv: "race_inv n s" and nf: "\<not> flag s" and se: "\<forall>u<n. searching (wpcs s ! u)"
    and n: "0 < n"
  shows "\<exists>s1. reach s s1 \<and> flag s1"
proof -
  from release_readers [OF inv nf se order_refl] obtain s1
    where r: "reach s s1" and inv1: "race_inv n s1" and nf1: "\<not> flag s1"
      and un1: "\<forall>u<n. unlocked (wpcs s1 ! u)" by blast
  from un1 n have "wpcs s1 ! 0 = WantWrite \<or> wpcs s1 ! 0 = Searching"
    by (auto simp: unlocked_def)
  then have "\<exists>s2. reach s1 s2 \<and> flag s2"
  proof
    assume "wpcs s1 ! 0 = WantWrite"
    then show ?thesis by (rule set_when_unlocked [OF inv1 nf1 un1 n])
  next
    assume "wpcs s1 ! 0 = Searching"
    then show ?thesis by (rule set_when_all_search [OF inv1 nf1 un1 n])
  qed
  then obtain s2 where "reach s1 s2" "flag s2" by blast
  with reach_trans [OF r] show ?thesis by blast
qed

lemma set_from_clear:
  assumes inv: "race_inv n s" and nf: "\<not> flag s" and n: "0 < n"
  shows "\<exists>s1. reach s s1 \<and> flag s1"
proof (cases "\<forall>u<n. searching (wpcs s ! u)")
  case True
  then show ?thesis by (rule set_when_searching [OF inv nf _ n])
next
  case False
  then obtain t where t: "t < n" and ns: "\<not> searching (wpcs s ! t)" by blast
  from race_invD(3) [OF inv] nf t have "early (wpcs s ! t)" by (simp add: early_ok_def)
  with ns consider "wpcs s ! t = Holding" | "wpcs s ! t = Winning" | "wpcs s ! t = InMutex"
    by (auto simp: early_def searching_def)
  then show ?thesis
  proof cases
    case 1 then show ?thesis by (rule set_at_holding [OF inv t _ nf])
  next
    case 2 then show ?thesis by (rule set_at_winning [OF inv t _ nf])
  next
    case 3 then show ?thesis by (rule set_at_inmutex [OF inv t _ nf])
  qed
qed

lemma can_finish:
  assumes inv: "race_inv n s" and n: "0 < n"
  shows "\<exists>s'. reach s s' \<and> mpc s' = MDone"
proof (cases "flag s")
  case True
  then show ?thesis by (rule finish_from_flag [OF inv])
next
  case False
  from set_from_clear [OF inv False n] obtain s1 where r: "reach s s1" and fl: "flag s1" by blast
  from finish_from_flag [OF reach_inv [OF inv r] fl] obtain s'
    where "reach s1 s'" "mpc s' = MDone" by blast
  with reach_trans [OF r] show ?thesis by blast
qed

lemma test_holds_lock:
  assumes inv: "race_inv n s" and t: "t < n" and pc: "wpcs s ! t = Holding" and nf: "\<not> flag s"
  shows "wr_owner s = Some t" "winners s = []"
proof -
  note ok = race_invD(1) [OF inv]
  from thread_facts(4) [OF ok t] pc nf show own: "wr_owner s = Some t"
    by (simp add: needs_lock_def)
  from ok nf have "winners s = [] \<or>
      (\<exists>u<n. winners s = [u] \<and> (wpcs s ! u = Winning \<or> wpcs s ! u = InMutex))"
    by (simp add: threads_ok_def logs_ok_def)
  then show "winners s = []"
  proof
    assume "\<exists>u<n. winners s = [u] \<and> (wpcs s ! u = Winning \<or> wpcs s ! u = InMutex)"
    then obtain u where u: "u < n" and w: "wpcs s ! u = Winning \<or> wpcs s ! u = InMutex" by blast
    from w have "needs_lock (wpcs s ! u) (flag s)" by (auto simp: needs_lock_def critical_def)
    from thread_facts(4) [OF ok u this] own have "u = t" by simp
    with w pc show ?thesis by simp
  qed
qed

lemma logs_at_most_one:
  assumes ok: "threads_ok n s"
  shows "length (setters s) \<le> 1" "length (reporters s) \<le> 1" "length (winners s) \<le> 1"
    "flag s = (length (setters s) = 1)"
    "reporters s \<noteq> [] \<longrightarrow> flag s \<and> reporters s = winners s \<and> setters s = winners s"
  using ok by (cases "flag s"; auto simp: threads_ok_def logs_ok_def)+

section \<open>Claims about the search\<close>

lemma no_empty_cell_nth:
  "wf_board p \<Longrightarrow> no_empty_cell p \<Longrightarrow> r < 9 \<Longrightarrow> c < 9 \<Longrightarrow> p ! r ! c \<noteq> 0"
  by (simp add: wf_board_def no_empty_cell_def list_all_length)

text \<open>
  Claim C2. On a 9x9 board whose 81 cells are all non-zero, with the completion latch
  unset, the search called with depth counter 0 from any cursor on the board returns success
  and leaves every cell as it was.
\<close>

theorem full_board_succeeds_unchanged:
  "latch_unset g_finished \<Longrightarrow> wf_board (grid s) \<Longrightarrow> no_empty_cell (grid s) \<Longrightarrow>
   row < 9 \<Longrightarrow> col < 9 \<Longrightarrow>
   fst (sudokuHelper g_finished s row col startV 0) \<and>
   grid (snd (sudokuHelper g_finished s row col startV 0)) = grid s"
  using full_board_run [of g_finished s row col startV 0] no_empty_cell_nth [of "grid s"]
  by blast

theorem full_board_succeeds_unchanged_witness:
  "fst (sudokuHelper (\<lambda>_. False) (fresh_state solved_board) 4 7 3 0) \<and>
   grid (snd (sudokuHelper (\<lambda>_. False) (fresh_state solved_board) 4 7 3 0)) = solved_board"
  using full_board_succeeds_unchanged [of "\<lambda>_. False" "fresh_state solved_board" 4 7 3]
  by (simp add: latch_unset_def wf_board_def no_empty_cell_def fresh_state_def solved_board_def)

text \<open>
  Claim C3, as amended. When a candidate digit has been written into the current cell and
  the recursive call on it reports failure, the next legality test of the loop finds that
  candidate still in the cell: in the history of the traced search, the entry that follows
  the history of the failed recursive call is the candidate, not 0. The cell is reset to 0
  once, after the last candidate: a loop that returns failure leaves 0 in the cell.
\<close>

theorem failed_candidate_is_seen_at_next_test:
  "wf_board (grid s) \<Longrightarrow> row < 9 \<Longrightarrow> col < 9 \<Longrightarrow> val < 9 \<Longrightarrow>
   isValid (next_startV startV) (grid s) row col \<Longrightarrow>
   sudokuHelper_traced g_finished (s\<lparr>grid := set_cell (grid s) row col (next_startV startV)\<rparr>)
     row col (next_startV startV) (nTimes + 1) (seen @ [grid s ! row ! col]) = (False, s1, seen1) \<Longrightarrow>
   take (length seen1 + 1) (snd (snd (candidates_traced g_finished s row col startV nTimes val seen)))
     = seen1 @ [next_startV startV] \<and>
   (\<not> fst (candidates_traced g_finished s row col startV nTimes val seen) \<longrightarrow>
      grid (fst (snd (candidates_traced g_finished s row col startV nTimes val seen))) =
        set_cell (grid s) row col 0)"
proof (intro conjI impI)
  let ?v = "next_startV startV"
  let ?sv = "s\<lparr>grid := set_cell (grid s) row col ?v\<rparr>"
  let ?X = "candidates_traced g_finished s row col startV nTimes val seen"
  assume wf: "wf_board (grid s)" and rc: "row < 9" "col < 9" and lt: "val < 9"
    and legal: "isValid ?v (grid s) row col"
    and rec: "sudokuHelper_traced g_finished ?sv row col ?v (nTimes + 1)
        (seen @ [grid s ! row ! col]) = (False, s1, seen1)"
  from lt have le: "val \<le> 9" and le1: "val + 1 \<le> 9" by simp_all
  from traced_erase(1) [of g_finished ?sv row col ?v "nTimes + 1" "seen @ [grid s ! row ! col]"] rec
  have "sudokuHelper g_finished ?sv row col ?v (nTimes + 1) = (False, s1)" by simp
  from failure_grid(1) [rule_format, OF this]
  have "grid s1 = set_cell (grid s) row col ?v" by simp
  then have cell: "grid s1 ! row ! col = ?v" using set_cell_at_wf [OF wf rc] by simp
  from candidates_traced_legal [OF le legal rec]
  have "?X = candidates_traced g_finished s1 row col ?v nTimes (val + 1) seen1" by simp
  moreover from first_test_seen [OF le1, of g_finished s1 row col ?v nTimes seen1] obtain more
    where "snd (snd (candidates_traced g_finished s1 row col ?v nTimes (val + 1) seen1)) =
      seen1 @ [grid s1 ! row ! col] @ more" ..
  ultimately have "snd (snd ?X) = seen1 @ [?v] @ more" by (simp add: cell)
  then show "take (length seen1 + 1) (snd (snd ?X)) = seen1 @ [?v]" by simp
next
  let ?X = "candidates_traced g_finished s row col startV nTimes val seen"
  assume "\<not> fst ?X"
  with traced_erase(2) [of g_finished s row col startV nTimes val seen]
  have "candidates g_finished s row col startV nTimes val = (False, fst (snd ?X))" by simp
  from failure_grid(2) [rule_format, OF this]
  show "grid (fst (snd ?X)) = set_cell (grid s) row col 0" .
qed

theorem failed_candidate_is_seen_at_next_test_witness:
  "take 11 (snd (snd (candidates_traced (\<lambda>_. False) (fresh_state dead_end_board) 0 0 0 0 1 [])))
     = [0, 0, 0, 0, 0, 0, 0, 0, 0, 0] @ [1] \<and>
   \<not> fst (candidates_traced (\<lambda>_. False) (fresh_state dead_end_board) 0 0 0 0 1 []) \<and>
   grid (fst (snd (candidates_traced (\<lambda>_. False) (fresh_state dead_end_board) 0 0 0 0 1 [])))
     = dead_end_board"
proof -
  let ?s = "fresh_state dead_end_board"
  have wf: "wf_board (grid ?s)" by (simp add: wf_board_def fresh_state_def dead_end_board_def)
  have legal: "isValid (next_startV 0) (grid ?s) 0 0" by code_simp
  have run: "sudokuHelper_traced (\<lambda>_. False)
      (?s\<lparr>grid := set_cell (grid ?s) 0 0 (next_startV 0)\<rparr>) 0 0 (next_startV 0) (0 + 1)
      ([] @ [grid ?s ! 0 ! 0]) =
      (False, \<lparr>grid = set_cell dead_end_board 0 0 1, nreads = 1, rdheld = 0\<rparr>,
       [0, 0, 0, 0, 0, 0, 0, 0, 0, 0])"
    by code_simp
  have fails: "\<not> fst (candidates_traced (\<lambda>_. False) ?s 0 0 0 0 1 [])" by code_simp
  have same: "set_cell (grid ?s) 0 0 0 = dead_end_board" by code_simp
  have v: "next_startV 0 = 1" by (simp add: next_startV_def)
  have l: "length [0, 0, 0, 0, 0, 0, 0, 0, 0, 0 :: cint] + 1 = 11" by simp
  from failed_candidate_is_seen_at_next_test [OF wf _ _ _ legal run, of 1]
  have a: "take (length [0, 0, 0, 0, 0, 0, 0, 0, 0, 0 :: cint] + 1)
        (snd (snd (candidates_traced (\<lambda>_. False) ?s 0 0 0 0 1 []))) =
        [0, 0, 0, 0, 0, 0, 0, 0, 0, 0] @ [next_startV 0]"
    and b: "\<not> fst (candidates_traced (\<lambda>_. False) ?s 0 0 0 0 1 []) \<longrightarrow>
        grid (fst (snd (candidates_traced (\<lambda>_. False) ?s 0 0 0 0 1 []))) =
        set_cell (grid ?s) 0 0 0"
    by simp_all
  from a [unfolded l v] b fails same show ?thesis by simp
qed

text \<open>
  Claim C3 as stated fails. On \<open>dead_end_board\<close>, from cursor (8,8) with start value 0, the
  search makes 18 legality tests. The first is for cell (0,0), which holds 0; candidate 1 is
  legal and is written. The next nine are the tests of the recursive call for cell (0,1), which
  holds 0 throughout and gets no digit, so the call reports failure. The last eight are the
  tests of candidates 2 to 9 for cell (0,0): at each of them the cell holds 1, not 0.
\<close>

theorem legality_tests_see_written_candidate:
  "snd (snd (sudokuHelper_traced (\<lambda>_. False) (fresh_state dead_end_board) 8 8 0 0 [])) =
     [0, 0, 0, 0, 0, 0, 0, 0, 0, 0, 1, 1, 1, 1, 1, 1, 1, 1]"
  by code_simp

text \<open>
  Claim C4 fails on the code. When the read of \<open>g_finished\<close> returns true, \<open>sudokuHelper\<close>
  returns at line 118 having taken the read lock and not released it: the thread still
  holds one read lock at return. (The path through line 120 releases it.)
\<close>

theorem early_return_keeps_read_lock:
  "sudokuHelper (\<lambda>_. True) (fresh_state dead_end_board) 8 8 0 0 =
     (True, \<lparr>grid = dead_end_board, nreads = 1, rdheld = 1\<rparr>)"
  by code_simp

text \<open>
  Claim C5, as amended. The search returns on every input: \<open>sudokuHelper\<close> is a total
  function, each of its calls raising the depth counter or the loop counter. On a board that
  has no completion, with the latch never set, a cursor on the board and a start value from 0
  to 9, the search called with depth counter 0 returns failure to its caller and leaves the
  board as it was.
\<close>

theorem unsolvable_board_returns_failure:
  "latch_unset g_finished \<Longrightarrow> wf_board (grid s) \<Longrightarrow> row < 9 \<Longrightarrow> col < 9 \<Longrightarrow> startV \<le> 9 \<Longrightarrow>
   \<not> (\<exists>p'. completes (grid s) p') \<Longrightarrow>
   \<not> fst (sudokuHelper g_finished s row col startV 0) \<and>
   grid (snd (sudokuHelper g_finished s row col startV 0)) = grid s"
proof -
  assume a: "latch_unset g_finished" "wf_board (grid s)" "row < 9" "col < 9" "startV \<le> 9"
    and un: "\<not> (\<exists>p'. completes (grid s) p')"
  have nf: "\<not> fst (sudokuHelper g_finished s row col startV 0)"
    using success_completes [OF a] un by blast
  then have "sudokuHelper g_finished s row col startV 0 =
      (False, snd (sudokuHelper g_finished s row col startV 0))"
    by (cases "sudokuHelper g_finished s row col startV 0") simp
  from failure_grid(1) [rule_format, OF this] nf show ?thesis by simp
qed

theorem unsolvable_board_returns_failure_witness:
  "\<not> fst (sudokuHelper (\<lambda>_. False) (fresh_state no_digit_board) 8 8 0 0) \<and>
   grid (snd (sudokuHelper (\<lambda>_. False) (fresh_state no_digit_board) 8 8 0 0)) = no_digit_board"
proof -
  have "latch_unset (\<lambda>_. False)" by (simp add: latch_unset_def)
  moreover have "wf_board (grid (fresh_state no_digit_board))"
    by (simp add: wf_board_def fresh_state_def no_digit_board_def)
  moreover have "\<not> (\<exists>p'. completes (grid (fresh_state no_digit_board)) p')"
    using no_digit_board_unsolvable by (simp add: fresh_state_def)
  ultimately show ?thesis
    using unsolvable_board_returns_failure [of "\<lambda>_. False" "fresh_state no_digit_board" 8 8 0]
    by (simp add: fresh_state_def)
qed

text \<open>
  Claim C5 as stated fails: on \<open>no_digit_board\<close>, with the latch never set, the search
  returns, and what it returns to its top-level caller is failure.
\<close>

theorem search_returns_failure:
  "sudokuHelper (\<lambda>_. False) (fresh_state no_digit_board) 8 8 0 0 =
     (False, \<lparr>grid = no_digit_board, nreads = 1, rdheld = 0\<rparr>)"
  by code_simp

text \<open>
  Claim C9. For every board and cursor, if \<open>sudokuHelper\<close> returns failure, the board at
  return is the board at entry.
\<close>

theorem sudokuHelper_failure_restores_board:
  "sudokuHelper g_finished s row col startV nTimes = (False, s') \<Longrightarrow> grid s' = grid s"
  using failure_grid(1) by blast

theorem sudokuHelper_failure_restores_board_witness:
  "sudokuHelper (\<lambda>_. False) (fresh_state dead_end_board) 8 8 0 0 =
     (False, \<lparr>grid = dead_end_board, nreads = 2, rdheld = 0\<rparr>) \<and>
   grid \<lparr>grid = dead_end_board, nreads = 2, rdheld = 0\<rparr> = grid (fresh_state dead_end_board)"
proof -
  have run: "sudokuHelper (\<lambda>_. False) (fresh_state dead_end_board) 8 8 0 0 =
     (False, \<lparr>grid = dead_end_board, nreads = 2, rdheld = 0\<rparr>)"
    by code_simp
  from sudokuHelper_failure_restores_board [OF run] run show ?thesis by simp
qed

text \<open>
  Claim C10. A cell that is non-zero when a call of \<open>sudokuHelper\<close> starts holds the same
  value when the call returns, whatever the outcome: the search writes only to cells that it
  found equal to 0, so the givens of the input board are preserved.
\<close>

theorem sudokuHelper_keeps_givens:
  "grid s ! r ! c \<noteq> 0 \<Longrightarrow>
   grid (snd (sudokuHelper g_finished s row col startV nTimes)) ! r ! c = grid s ! r ! c"
  using givens_kept(1) by blast

theorem sudokuHelper_keeps_givens_witness:
  "grid (fresh_state two_blank_board) ! 0 ! 1 \<noteq> 0 \<and>
   grid (snd (sudokuHelper (\<lambda>_. False) (fresh_state two_blank_board) 8 8 0 0)) ! 0 ! 1 = 3"
  using sudokuHelper_keeps_givens [of "fresh_state two_blank_board" 0 1 "\<lambda>_. False" 8 8 0 0]
  by (simp add: fresh_state_def two_blank_board_def solved_board_def set_cell_def)

section \<open>Claims about the tasks and the message\<close>

text \<open>
  Claim C6, as amended. For every worker count, each task gets a starting cursor of its own:
  the row of task \<open>i\<close> is the value of call number \<open>2 * i\<close> of the generator and its column
  the value of call number \<open>2 * i + 1\<close>, both reduced modulo 9. The cursor is drawn once per
  task, inside the loop, not once for all tasks.
\<close>

theorem each_task_draws_its_own_cursor:
  "i < thread_num \<Longrightarrow>
   length (init_tasks rand start_value puzzle thread_num 0 0) = thread_num \<and>
   row_z (init_tasks rand start_value puzzle thread_num 0 0 ! i) = rand (2 * i) mod 9 \<and>
   col_z (init_tasks rand start_value puzzle thread_num 0 0 ! i) = rand (2 * i + 1) mod 9"
  using init_tasks_nth [of i thread_num 0 rand start_value puzzle 0]
  by (simp add: init_tasks_length)

theorem each_task_draws_its_own_cursor_witness:
  "length (init_tasks rand_seed1 (\<lambda>_ _. 0) solved_board 2 0 0) = 2 \<and>
   row_z (init_tasks rand_seed1 (\<lambda>_ _. 0) solved_board 2 0 0 ! 1) = 0 \<and>
   col_z (init_tasks rand_seed1 (\<lambda>_ _. 0) solved_board 2 0 0 ! 1) = 7"
  using each_task_draws_its_own_cursor [of 1 2 rand_seed1 "\<lambda>_ _. 0" solved_board]
  by (simp add: rand_seed1_def)

text \<open>
  Claim C6 as stated fails: with the generator started at seed 1 and two workers, the two
  tasks carry the cursors (1,7) and (0,7).
\<close>

theorem tasks_with_different_cursors:
  "map (\<lambda>t. (row_z t, col_z t)) (init_tasks rand_seed1 (\<lambda>_ _. 0) solved_board 2 0 0) =
     [(1, 7), (0, 7)]"
  by (simp add: init_tasks.simps rand_seed1_def)




section \<open>Claim about the race\<close>

text \<open>
  Claim C8. In every run with \<open>thread_num \<ge> 1\<close> workers, whatever the schedule and wherever
  the run has got to (state \<open>s\<close>):
  \<^item> the flag has gone from false to true at most once, and it is set exactly if it has gone
    from false to true once;
  \<^item> when \<open>main\<close> has returned, which ends the run, the flag has gone from false to true
    exactly once;
  \<^item> the run can always be continued until \<open>main\<close> returns, the flag then having gone from
    false to true exactly once: no state of a run is a dead end in which the flag is never
    set;
  \<^item> lines 187-197 (serialization and \<open>send\<close>) have been executed at most once, and if they
    have, then by the one worker that found the flag clear at line 179, which is also the
    worker whose assignment set the flag;
  \<^item> a worker that is at the test of line 179 with the flag still clear holds the write lock,
    and no worker has found the flag clear before it.
\<close>

theorem one_flag_transition_one_reporter:
  assumes n: "0 < thread_num" and run: "run_sched (init_sys thread_num) sched = Some s"
  shows "length (setters s) \<le> 1 \<and> flag s = (length (setters s) = 1) \<and>
         (mpc s = MDone \<longrightarrow> length (setters s) = 1) \<and>
         (\<exists>more s'. run_sched s more = Some s' \<and> mpc s' = MDone \<and> length (setters s') = 1) \<and>
         length (reporters s) \<le> 1 \<and> length (winners s) \<le> 1 \<and>
         (reporters s \<noteq> [] \<longrightarrow> flag s \<and> reporters s = winners s \<and> setters s = winners s) \<and>
         (\<forall>t<thread_num. wpcs s ! t = Holding \<and> \<not> flag s \<longrightarrow>
            wr_owner s = Some t \<and> winners s = [])"
proof -
  have inv: "race_inv thread_num s" by (rule run_sched_inv [OF race_inv_init run])
  note ok = race_invD(1) [OF inv]
  note l = logs_at_most_one [OF ok]
  from ok l(4) have atend: "mpc s = MDone \<longrightarrow> length (setters s) = 1"
    by (simp add: threads_ok_def exit_ok_def)
  from can_finish [OF inv n] obtain more s' where more: "run_sched s more = Some s'"
    and m': "mpc s' = MDone" by (auto simp: reach_def)
  note ok' = race_invD(1) [OF run_sched_inv [OF inv more]]
  from ok' m' logs_at_most_one(4) [OF ok'] have "length (setters s') = 1"
    by (simp add: threads_ok_def exit_ok_def)
  with more m' have fin: "\<exists>more s'. run_sched s more = Some s' \<and> mpc s' = MDone \<and>
      length (setters s') = 1" by blast
  have hold: "\<forall>t<thread_num. wpcs s ! t = Holding \<and> \<not> flag s \<longrightarrow>
            wr_owner s = Some t \<and> winners s = []"
    using test_holds_lock [OF inv] by blast
  from l(1) l(4) atend fin l(2) l(3) l(5) hold show ?thesis by (intro conjI)
qed

text \<open>
  Two runs with two workers. After \<open>race_prefix\<close> worker 0 is at the test of line 179 with
  the flag clear and holds the write lock. After \<open>race_prefix @ race_rest\<close> worker 0 has set
  the flag and sent the report, worker 1 has returned through line 118 with its read lock
  kept, and \<open>main\<close> has returned.
\<close>

theorem one_flag_transition_one_reporter_witness:
  "0 < (2::nat) \<and>
   run_sched (init_sys 2) race_prefix = Some race_mid \<and>
   wpcs race_mid ! 0 = Holding \<and> \<not> flag race_mid \<and>
   wr_owner race_mid = Some 0 \<and> winners race_mid = [] \<and>
   (\<exists>more s'. run_sched race_mid more = Some s' \<and> mpc s' = MDone \<and>
      length (setters s') = 1) \<and>
   run_sched (init_sys 2) (race_prefix @ race_rest) = Some race_end \<and>
   mpc race_end = MDone \<and> length (setters race_end) = 1 \<and>
   reporters race_end = [0] \<and> winners race_end = [0] \<and> setters race_end = [0]"
proof -
  have n: "0 < (2::nat)" by simp
  have a: "run_sched (init_sys 2) race_prefix = Some race_mid" by code_simp
  have b: "run_sched (init_sys 2) (race_prefix @ race_rest) = Some race_end" by code_simp
  have c: "wpcs race_mid ! 0 = Holding" "\<not> flag race_mid" "mpc race_end = MDone"
    "reporters race_end = [0]"
    by (simp_all add: race_mid_def race_end_def)
  note mid = one_flag_transition_one_reporter [OF n a]
  note fin = one_flag_transition_one_reporter [OF n b]
  from mid have more: "\<exists>more s'. run_sched race_mid more = Some s' \<and> mpc s' = MDone \<and>
      length (setters s') = 1" by blast
  from mid have h: "\<forall>t<2. wpcs race_mid ! t = Holding \<and> \<not> flag race_mid \<longrightarrow>
            wr_owner race_mid = Some t \<and> winners race_mid = []" by blast
  from h [rule_format, of 0] c(1,2) have own: "wr_owner race_mid = Some 0" "winners race_mid = []"
    by simp_all
  from fin c(3) have once: "length (setters race_end) = 1" by blast
  from fin c(4) have "reporters race_end = winners race_end \<and> setters race_end = winners race_end"
    by simp
  with c(4) have who: "winners race_end = [0]" "setters race_end = [0]" by simp_all
  from n a c more own b once who show ?thesis by (intro conjI)
qed

end
